theory Spec2Isabelle
  imports Main "HOL-Library.Word" "HOL-Library.Signed_Division"
begin

section \<open>The entity-component store goecs\<close>

text \<open>
  A shallow embedding of \<^verbatim>\<open>goecs.go\<close>. Conventions:
  \<^item> \<^verbatim>\<open>Goent\<close> is \<^verbatim>\<open>uint64\<close>: a 64-bit word.
  \<^item> Go's \<^verbatim>\<open>int\<close> is taken as 64 bits wide (the common targets); values are HOL
    integers and every arithmetic result is wrapped by \<open>int64\<close>. The conversion
    \<^verbatim>\<open>int(entity)\<close> reinterprets the 64 bits as two's complement (\<open>sint\<close>).
    Go's \<^verbatim>\<open>/\<close> and \<^verbatim>\<open>%\<close> truncate towards zero (\<open>sdiv\<close>, \<open>smod\<close>).
  \<^item> A run-time panic is a value \<open>Inl p\<close>; a normal return is \<open>Inr x\<close>.
  \<^item> \<^verbatim>\<open>components []*T\<close> is a slice of pointers. Pointers are addresses into an explicit
    heap of component cells; \<^verbatim>\<open>&comp\<close> takes a fresh cell. The length check of
    \<^verbatim>\<open>make\<close> is modelled; the runtime's fatal out-of-memory error, which depends on the
    machine, is not.
  \<^item> Slices are lists; a slice index outside the list is a panic.
  \<^item> A \<^verbatim>\<open>reflect.Type\<close> is a value of \<open>rtype\<close>. Component types are concrete
    (non-interface) types, for which \<^verbatim>\<open>reflect.TypeOf\<close> of the zero value is the type
    itself. A type parameter \<^verbatim>\<open>[T any]\<close> becomes an argument of type \<open>rtype\<close>, and all
    component values live in one value type \<open>'c\<close>.
\<close>

subsection \<open>Machine integers, panics, slices\<close>

type_synonym Goent = "64 word"

type_synonym addr = nat

datatype panic =
    IndexOutOfRange
  | MakeSliceLenOutOfRange
  | TypeOnZeroValue
  | IterateRequiresFunction
  | NoComponentParameter
  | CallArgumentType

definition int64 :: "int \<Rightarrow> int" where
  "int64 k = signed_take_bit 63 k"

definition int_of_Goent :: "Goent \<Rightarrow> int" where
  "int_of_Goent entity = sint entity"

definition len :: "'a list \<Rightarrow> int" where
  "len xs = int (length xs)"

definition slice_get :: "'a list \<Rightarrow> int \<Rightarrow> panic + 'a" where
  "slice_get xs i = (if 0 \<le> i \<and> i < len xs then Inr (xs ! nat i) else Inl IndexOutOfRange)"

definition slice_set :: "'a list \<Rightarrow> int \<Rightarrow> 'a \<Rightarrow> panic + 'a list" where
  "slice_set xs i v = (if 0 \<le> i \<and> i < len xs then Inr (xs[nat i := v]) else Inl IndexOutOfRange)"

definition slice_to :: "'a list \<Rightarrow> int \<Rightarrow> panic + 'a list" where
  "slice_to xs n = (if 0 \<le> n \<and> n \<le> len xs then Inr (take (nat n) xs) else Inl IndexOutOfRange)"

definition copy_slice :: "'a list \<Rightarrow> 'a list \<Rightarrow> 'a list" where
  "copy_slice dst src = take (length dst) src @ drop (length src) dst"

subsection \<open>The heap of component cells\<close>

record 'c heap =
  cells :: "addr \<Rightarrow> 'c"
  fresh :: addr

definition new_cell :: "'c \<Rightarrow> 'c heap \<Rightarrow> addr \<times> 'c heap" where
  "new_cell v h = (fresh h, h\<lparr>cells := (cells h)(fresh h := v), fresh := Suc (fresh h)\<rparr>)"

definition store :: "addr \<Rightarrow> 'c \<Rightarrow> 'c heap \<Rightarrow> 'c heap" where
  "store a v h = h\<lparr>cells := (cells h)(a := v)\<rparr>"

definition load :: "'c heap \<Rightarrow> addr \<Rightarrow> 'c" where
  "load h a = cells h a"

subsection \<open>ECS core: the sparse set\<close>

definition invalidIndex :: int where
  "invalidIndex = - 1"

definition alignment :: int where
  "alignment = 256"

definition nextAlignedCapacity :: "int \<Rightarrow> int" where
  "nextAlignedCapacity n =
     (if n smod alignment = 0 then n
      else int64 (int64 (n sdiv alignment + 1) * alignment))"

record SparseSet =
  dense :: "Goent list"
  components :: "addr list"
  sparse :: "int list"

text \<open>
  \<^verbatim>\<open>make([]int, n)\<close> followed by the loop that fills every slot with \<open>invalidIndex\<close>.
  The runtime's \<^verbatim>\<open>makeslice\<close> panics with \<^verbatim>\<open>len out of range\<close> when \<open>n\<close> is negative or
  when the slice would take more than \<open>maxAlloc\<close> bytes: \<open>2^48\<close> on the 64-bit targets, an
  \<^verbatim>\<open>int\<close> taking 8 bytes there.
\<close>

definition maxAlloc :: int where
  "maxAlloc = 2 ^ 48"

definition make_sparse :: "int \<Rightarrow> panic + int list" where
  "make_sparse n =
     (if n < 0 \<or> 8 * n > maxAlloc then Inl MakeSliceLenOutOfRange
      else Inr (replicate (nat n) invalidIndex))"

definition NewSparseSet :: SparseSet where
  "NewSparseSet =
     \<lparr>dense = [], components = [], sparse = replicate (nat alignment) invalidIndex\<rparr>"

definition Emplace :: "SparseSet \<Rightarrow> Goent \<Rightarrow> 'c \<Rightarrow> 'c heap \<Rightarrow> panic + SparseSet \<times> 'c heap" where
  "Emplace ss entity compv h =
     (let e = int_of_Goent entity in
      case (if e \<ge> len (sparse ss) then
              (case make_sparse (nextAlignedCapacity (int64 (e + 1))) of
                 Inl p \<Rightarrow> Inl p
               | Inr newSparse \<Rightarrow> Inr (copy_slice newSparse (sparse ss)))
            else Inr (sparse ss)) of
        Inl p \<Rightarrow> Inl p
      | Inr sp \<Rightarrow>
          (case slice_get sp e of
             Inl p \<Rightarrow> Inl p
           | Inr i \<Rightarrow>
               if i \<noteq> invalidIndex then
                 (case slice_get (components ss) i of
                    Inl p \<Rightarrow> Inl p
                  | Inr a \<Rightarrow> Inr (ss\<lparr>sparse := sp\<rparr>, store a compv h))
               else
                 (let index = len (dense ss);
                      (a, h') = new_cell compv h
                  in case slice_set sp e index of
                       Inl p \<Rightarrow> Inl p
                     | Inr sp' \<Rightarrow>
                         Inr (\<lparr>dense = dense ss @ [entity],
                               components = components ss @ [a],
                               sparse = sp'\<rparr>, h'))))"

definition Get :: "SparseSet \<Rightarrow> Goent \<Rightarrow> panic + addr option" where
  "Get ss entity =
     (let e = int_of_Goent entity in
      if e \<ge> len (sparse ss) then Inr None
      else (case slice_get (sparse ss) e of
              Inl p \<Rightarrow> Inl p
            | Inr i \<Rightarrow>
                if i = invalidIndex then Inr None
                else (case slice_get (components ss) i of
                        Inl p \<Rightarrow> Inl p
                      | Inr a \<Rightarrow> Inr (Some a))))"

definition Remove :: "SparseSet \<Rightarrow> Goent \<Rightarrow> panic + SparseSet" where
  "Remove ss entity =
     (let e = int_of_Goent entity in
      if e \<ge> len (sparse ss) then Inr ss
      else (case slice_get (sparse ss) e of
              Inl p \<Rightarrow> Inl p
            | Inr index \<Rightarrow>
                if index = invalidIndex then Inr ss
                else
                  (let lastIndex = len (dense ss) - 1 in
                   case slice_get (dense ss) lastIndex of Inl p \<Rightarrow> Inl p | Inr lastEntity \<Rightarrow>
                   case slice_set (dense ss) index lastEntity of Inl p \<Rightarrow> Inl p | Inr dense1 \<Rightarrow>
                   case slice_get (components ss) lastIndex of Inl p \<Rightarrow> Inl p | Inr lastComp \<Rightarrow>
                   case slice_set (components ss) index lastComp of Inl p \<Rightarrow> Inl p | Inr comps1 \<Rightarrow>
                   case slice_set (sparse ss) (int_of_Goent lastEntity) index of
                     Inl p \<Rightarrow> Inl p | Inr sparse1 \<Rightarrow>
                   case slice_to dense1 lastIndex of Inl p \<Rightarrow> Inl p | Inr dense2 \<Rightarrow>
                   case slice_to comps1 lastIndex of Inl p \<Rightarrow> Inl p | Inr comps2 \<Rightarrow>
                   case slice_set sparse1 e invalidIndex of Inl p \<Rightarrow> Inl p | Inr sparse2 \<Rightarrow>
                   Inr \<lparr>dense = dense2, components = comps2, sparse = sparse2\<rparr>)))"

text \<open>The two methods of \<^verbatim>\<open>SparseSetInterface\<close>.\<close>

definition SparseSet_GetComponent :: "SparseSet \<Rightarrow> Goent \<Rightarrow> panic + addr option" where
  "SparseSet_GetComponent ss entity = Get ss entity"

definition GetDense :: "SparseSet \<Rightarrow> Goent list" where
  "GetDense ss = dense ss"

text \<open>Reading the component an entity holds: \<open>Get\<close>, then a load through the pointer.\<close>

definition GetValue :: "SparseSet \<Rightarrow> 'c heap \<Rightarrow> Goent \<Rightarrow> panic + 'c option" where
  "GetValue ss h entity =
     (case Get ss entity of
        Inl p \<Rightarrow> Inl p
      | Inr None \<Rightarrow> Inr None
      | Inr (Some a) \<Rightarrow> Inr (Some (load h a)))"

subsection \<open>The registry\<close>

datatype rtype = GoentT | Named string | Ptr rtype

record Registry =
  storages :: "rtype \<Rightarrow> SparseSet option"

definition NewRegistry :: Registry where
  "NewRegistry = \<lparr>storages = Map.empty\<rparr>"

definition typeKeyFor :: "rtype \<Rightarrow> rtype" where
  "typeKeyFor T = T"

definition RegisterComponent :: "rtype \<Rightarrow> Registry \<Rightarrow> Registry \<times> SparseSet" where
  "RegisterComponent T r =
     (let key = typeKeyFor T;
          set = NewSparseSet
      in (r\<lparr>storages := (storages r)(key \<mapsto> set)\<rparr>, set))"

definition EmplaceComponent ::
  "rtype \<Rightarrow> Registry \<Rightarrow> Goent \<Rightarrow> 'c \<Rightarrow> 'c heap \<Rightarrow> panic + Registry \<times> 'c heap" where
  "EmplaceComponent T r entity compv h =
     (let key = typeKeyFor T;
          storage = (case storages r key of None \<Rightarrow> NewSparseSet | Some st \<Rightarrow> st)
      in case Emplace storage entity compv h of
           Inl p \<Rightarrow> Inl p
         | Inr (storage', h') \<Rightarrow> Inr (r\<lparr>storages := (storages r)(key \<mapsto> storage')\<rparr>, h'))"

definition GetComponent :: "rtype \<Rightarrow> Registry \<Rightarrow> Goent \<Rightarrow> panic + addr option" where
  "GetComponent T r entity =
     (let key = typeKeyFor T in
      case storages r key of
        None \<Rightarrow> Inr None
      | Some storage \<Rightarrow> Get storage entity)"

definition RemoveComponent :: "rtype \<Rightarrow> Registry \<Rightarrow> Goent \<Rightarrow> panic + Registry" where
  "RemoveComponent T r entity =
     (let key = typeKeyFor T in
      case storages r key of
        None \<Rightarrow> Inr r
      | Some storage \<Rightarrow>
          (case Remove storage entity of
             Inl p \<Rightarrow> Inl p
           | Inr storage' \<Rightarrow> Inr (r\<lparr>storages := (storages r)(key \<mapsto> storage')\<rparr>)))"

subsection \<open>Typed iteration\<close>

text \<open>
  A visitor receives the entity and the component pointers and acts on a state \<open>'s\<close>: the
  heap of component cells together with whatever variables its closure captured. It does
  not call the registry's mutators while an iteration runs.
\<close>

fun iterateDense :: "Goent list \<Rightarrow> (Goent \<Rightarrow> 's \<Rightarrow> panic + 's) \<Rightarrow> 's \<Rightarrow> panic + 's" where
  "iterateDense [] f s = Inr s"
| "iterateDense (e # es) f s =
     (case f e s of Inl p \<Rightarrow> Inl p | Inr s' \<Rightarrow> iterateDense es f s')"

definition getStorage :: "rtype \<Rightarrow> Registry \<Rightarrow> SparseSet option" where
  "getStorage T r = (let key = typeKeyFor T in storages r key)"

definition Iterate2 ::
  "rtype \<Rightarrow> rtype \<Rightarrow> Registry \<Rightarrow> (Goent \<Rightarrow> addr \<Rightarrow> addr \<Rightarrow> 's \<Rightarrow> 's) \<Rightarrow> 's \<Rightarrow> panic + 's" where
  "Iterate2 T1 T2 r f s =
     (case getStorage T1 r of None \<Rightarrow> Inr s | Some s1 \<Rightarrow>
      case getStorage T2 r of None \<Rightarrow> Inr s | Some s2 \<Rightarrow>
        (let baseDense = dense s1;
             baseDense = (if length (dense s2) < length baseDense then dense s2 else baseDense)
         in iterateDense baseDense
              (\<lambda>entity st.
                 case Get s1 entity of Inl p \<Rightarrow> Inl p | Inr g1 \<Rightarrow>
                 case Get s2 entity of Inl p \<Rightarrow> Inl p | Inr g2 \<Rightarrow>
                 (case (g1, g2) of
                    (Some c1, Some c2) \<Rightarrow> Inr (f entity c1 c2 st)
                  | _ \<Rightarrow> Inr st)) s))"

definition Iterate3 ::
  "rtype \<Rightarrow> rtype \<Rightarrow> rtype \<Rightarrow> Registry \<Rightarrow> (Goent \<Rightarrow> addr \<Rightarrow> addr \<Rightarrow> addr \<Rightarrow> 's \<Rightarrow> 's)
     \<Rightarrow> 's \<Rightarrow> panic + 's" where
  "Iterate3 T1 T2 T3 r f s =
     (case getStorage T1 r of None \<Rightarrow> Inr s | Some s1 \<Rightarrow>
      case getStorage T2 r of None \<Rightarrow> Inr s | Some s2 \<Rightarrow>
      case getStorage T3 r of None \<Rightarrow> Inr s | Some s3 \<Rightarrow>
        (let baseDense = dense s1;
             baseDense = (if length (dense s2) < length baseDense then dense s2 else baseDense);
             baseDense = (if length (dense s3) < length baseDense then dense s3 else baseDense)
         in iterateDense baseDense
              (\<lambda>entity st.
                 case Get s1 entity of Inl p \<Rightarrow> Inl p | Inr g1 \<Rightarrow>
                 case Get s2 entity of Inl p \<Rightarrow> Inl p | Inr g2 \<Rightarrow>
                 case Get s3 entity of Inl p \<Rightarrow> Inl p | Inr g3 \<Rightarrow>
                 (case (g1, g2, g3) of
                    (Some c1, Some c2, Some c3) \<Rightarrow> Inr (f entity c1 c2 c3 st)
                  | _ \<Rightarrow> Inr st)) s))"

definition Iterate4 ::
  "rtype \<Rightarrow> rtype \<Rightarrow> rtype \<Rightarrow> rtype \<Rightarrow> Registry
     \<Rightarrow> (Goent \<Rightarrow> addr \<Rightarrow> addr \<Rightarrow> addr \<Rightarrow> addr \<Rightarrow> 's \<Rightarrow> 's) \<Rightarrow> 's \<Rightarrow> panic + 's" where
  "Iterate4 T1 T2 T3 T4 r f s =
     (case getStorage T1 r of None \<Rightarrow> Inr s | Some s1 \<Rightarrow>
      case getStorage T2 r of None \<Rightarrow> Inr s | Some s2 \<Rightarrow>
      case getStorage T3 r of None \<Rightarrow> Inr s | Some s3 \<Rightarrow>
      case getStorage T4 r of None \<Rightarrow> Inr s | Some s4 \<Rightarrow>
        (let baseDense = dense s1;
             baseDense = (if length (dense s2) < length baseDense then dense s2 else baseDense);
             baseDense = (if length (dense s3) < length baseDense then dense s3 else baseDense);
             baseDense = (if length (dense s4) < length baseDense then dense s4 else baseDense)
         in iterateDense baseDense
              (\<lambda>entity st.
                 case Get s1 entity of Inl p \<Rightarrow> Inl p | Inr g1 \<Rightarrow>
                 case Get s2 entity of Inl p \<Rightarrow> Inl p | Inr g2 \<Rightarrow>
                 case Get s3 entity of Inl p \<Rightarrow> Inl p | Inr g3 \<Rightarrow>
                 case Get s4 entity of Inl p \<Rightarrow> Inl p | Inr g4 \<Rightarrow>
                 (case (g1, g2, g3, g4) of
                    (Some c1, Some c2, Some c3, Some c4) \<Rightarrow> Inr (f entity c1 c2 c3 c4 st)
                  | _ \<Rightarrow> Inr st)) s))"

subsection \<open>Reflective iteration\<close>

text \<open>
  The argument \<^verbatim>\<open>f interface{}\<close>: the nil interface, a value that is not a function (with
  its type), or a function with its parameter types and its body. The body gets the
  entity and the list of component pointers.
\<close>

datatype 's iface =
    NilValue
  | NonFunc rtype
  | Func "rtype list" "Goent \<Rightarrow> addr list \<Rightarrow> 's \<Rightarrow> 's"

text \<open>The loop that finds a storage for each component parameter; \<open>None\<close> is its early return.\<close>

fun resolve_storages :: "Registry \<Rightarrow> rtype list \<Rightarrow> (rtype \<times> SparseSet) list option" where
  "resolve_storages r [] = Some []"
| "resolve_storages r (p # ps) =
     (let paramType = (case p of Ptr t \<Rightarrow> t | _ \<Rightarrow> p) in
      case storages r paramType of
        None \<Rightarrow> None
      | Some storage \<Rightarrow>
          (case resolve_storages r ps of
             None \<Rightarrow> None
           | Some rest \<Rightarrow> Some ((paramType, storage) # rest)))"

text \<open>The loop from \<open>i = 1\<close> that picks the smallest dense array; it returns \<open>baseIndex\<close>.\<close>

fun pick_base :: "SparseSet list \<Rightarrow> nat \<Rightarrow> nat \<Rightarrow> nat \<Rightarrow> nat" where
  "pick_base [] i baseIndex minLen = baseIndex"
| "pick_base (st # sts) i baseIndex minLen =
     (let l = length (GetDense st) in
      if l < minLen then pick_base sts (Suc i) i l
      else pick_base sts (Suc i) baseIndex minLen)"

text \<open>The inner loop over the storages; \<open>Inr None\<close> is \<^verbatim>\<open>valid = false\<close> with its break.\<close>

fun collect_args :: "SparseSet list \<Rightarrow> Goent \<Rightarrow> panic + addr list option" where
  "collect_args [] entity = Inr (Some [])"
| "collect_args (st # sts) entity =
     (case SparseSet_GetComponent st entity of
        Inl p \<Rightarrow> Inl p
      | Inr None \<Rightarrow> Inr None
      | Inr (Some compv) \<Rightarrow>
          (case collect_args sts entity of
             Inl p \<Rightarrow> Inl p
           | Inr None \<Rightarrow> Inr None
           | Inr (Some args) \<Rightarrow> Inr (Some (compv # args))))"

text \<open>
  \<^verbatim>\<open>reflect.Value.Call\<close> panics unless every argument's type is assignable to the
  parameter's type; between concrete types that is equality.
\<close>

definition reflect_Call ::
  "rtype list \<Rightarrow> (Goent \<Rightarrow> addr list \<Rightarrow> 's \<Rightarrow> 's) \<Rightarrow> rtype list \<Rightarrow> Goent \<Rightarrow> addr list \<Rightarrow> 's
     \<Rightarrow> panic + 's" where
  "reflect_Call ins body argTypes entity args s =
     (if argTypes = ins then Inr (body entity args s) else Inl CallArgumentType)"

definition IterateReflective :: "Registry \<Rightarrow> 's iface \<Rightarrow> 's \<Rightarrow> panic + 's" where
  "IterateReflective r f s =
     (case f of
        NilValue \<Rightarrow> Inl TypeOnZeroValue
      | NonFunc t \<Rightarrow> Inl IterateRequiresFunction
      | Func ins body \<Rightarrow>
          (case ins of
             [] \<Rightarrow> Inl IterateRequiresFunction
           | in0 # compTypes \<Rightarrow>
               if in0 \<noteq> GoentT then Inl IterateRequiresFunction
               else if length compTypes = 0 then Inl NoComponentParameter
               else
                 (case resolve_storages r compTypes of
                    None \<Rightarrow> Inr s
                  | Some found \<Rightarrow>
                      (let sts = map snd found;
                           baseIndex = pick_base (tl sts) 1 0 (length (GetDense (hd sts)));
                           baseDense = GetDense (sts ! baseIndex);
                           argTypes = GoentT # map (\<lambda>(k, st). Ptr k) found
                       in iterateDense baseDense
                            (\<lambda>entity st.
                               case collect_args sts entity of
                                 Inl p \<Rightarrow> Inl p
                               | Inr None \<Rightarrow> Inr st
                               | Inr (Some args) \<Rightarrow>
                                   reflect_Call ins body argTypes entity args st) s))))"

section \<open>Invariants and the states the operations produce\<close>

text \<open>
  The structural invariant of a sparse set, in the words of the data model. It is stated
  against \<open>owner\<close>, the association the sparse set is meant to store: \<open>owner e = Some a\<close>
  when entity \<open>e\<close> holds the component in cell \<open>a\<close>, and \<open>owner e = None\<close> when \<open>e\<close>
  holds no component of this type.
  \<^item> \<open>dense\<close> and \<open>components\<close> have the same length (lists have no gaps), and no two
    positions share a cell;
  \<^item> \<open>dense[i]\<close> and \<open>components[i]\<close> describe the same entity: the cell at position
    \<open>i\<close> is the one the entity at position \<open>i\<close> holds;
  \<^item> every entity in \<open>dense\<close> lies within the capacity of \<open>sparse\<close>, and
    \<open>sparse[e] = i\<close> exactly when \<open>dense[i] = e\<close>;
  \<^item> \<open>sparse[e]\<close> is the absent marker exactly when no position of \<open>dense\<close> holds
    \<open>e\<close>, and an entity at no position of \<open>dense\<close> holds no component.
  \<open>index_inv\<close> is the part that speaks of \<open>sparse\<close> and \<open>dense\<close> only, \<open>linked\<close> the
  same part in the form the proofs use, and \<open>slot_of\<close> the association a sparse set
  stores, read through \<open>Get\<close>. \<open>cells_inv\<close> says that the component pointers are
  distinct, allocated cells. \<open>grown\<close>, \<open>appended\<close> and \<open>removed\<close> name the sparse index
  after the growth step and the sparse set after an appending \<open>Emplace\<close> and after a
  \<open>Remove\<close> of a present entity.
\<close>

definition SparseSet_inv :: "SparseSet \<Rightarrow> (Goent \<Rightarrow> addr option) \<Rightarrow> bool" where
  "SparseSet_inv ss owner \<longleftrightarrow>
     length (dense ss) = length (components ss) \<and>
     distinct (components ss) \<and>
     (\<forall>i<length (dense ss). owner (dense ss ! i) = Some (components ss ! i)) \<and>
     (\<forall>i<length (dense ss).
        0 \<le> int_of_Goent (dense ss ! i) \<and> int_of_Goent (dense ss ! i) < len (sparse ss)) \<and>
     (\<forall>i<length (dense ss). \<forall>j<length (sparse ss).
        (sparse ss ! j = int i) = (int_of_Goent (dense ss ! i) = int j)) \<and>
     (\<forall>j<length (sparse ss).
        (sparse ss ! j = invalidIndex) = (\<forall>i<length (dense ss). int_of_Goent (dense ss ! i) \<noteq> int j)) \<and>
     (\<forall>e. e \<notin> set (dense ss) \<longrightarrow> owner e = None)"

definition index_inv :: "SparseSet \<Rightarrow> bool" where
  "index_inv ss \<longleftrightarrow>
     length (dense ss) = length (components ss) \<and>
     (\<forall>i<length (dense ss).
        0 \<le> int_of_Goent (dense ss ! i) \<and> int_of_Goent (dense ss ! i) < len (sparse ss)) \<and>
     (\<forall>i<length (dense ss). \<forall>j<length (sparse ss).
        (sparse ss ! j = int i) = (int_of_Goent (dense ss ! i) = int j)) \<and>
     (\<forall>j<length (sparse ss).
        (sparse ss ! j = invalidIndex) = (\<forall>i<length (dense ss). int_of_Goent (dense ss ! i) \<noteq> int j))"

definition slot_of :: "SparseSet \<Rightarrow> Goent \<Rightarrow> addr option" where
  "slot_of ss e = (case Get ss e of Inl p \<Rightarrow> None | Inr g \<Rightarrow> g)"

definition linked :: "SparseSet \<Rightarrow> bool" where
  "linked ss \<longleftrightarrow>
     length (components ss) = length (dense ss) \<and>
     (\<forall>i<length (dense ss).
        0 \<le> int_of_Goent (dense ss ! i) \<and> int_of_Goent (dense ss ! i) < len (sparse ss) \<and>
        sparse ss ! nat (int_of_Goent (dense ss ! i)) = int i) \<and>
     (\<forall>j<length (sparse ss).
        sparse ss ! j \<noteq> invalidIndex \<longrightarrow>
          0 \<le> sparse ss ! j \<and> sparse ss ! j < len (dense ss) \<and>
          int_of_Goent (dense ss ! nat (sparse ss ! j)) = int j)"

definition cells_inv :: "SparseSet \<Rightarrow> 'c heap \<Rightarrow> bool" where
  "cells_inv ss h \<longleftrightarrow> distinct (components ss) \<and> (\<forall>a\<in>set (components ss). a < fresh h)"

definition grown :: "int list \<Rightarrow> Goent \<Rightarrow> int list" where
  "grown sp entity =
     (if len sp \<le> int_of_Goent entity
      then sp @ replicate (nat (nextAlignedCapacity (int_of_Goent entity + 1)) - length sp) invalidIndex
      else sp)"

definition appended :: "SparseSet \<Rightarrow> Goent \<Rightarrow> addr \<Rightarrow> SparseSet" where
  "appended ss entity a =
     \<lparr>dense = dense ss @ [entity], components = components ss @ [a],
      sparse = (grown (sparse ss) entity)[nat (int_of_Goent entity) := len (dense ss)]\<rparr>"

definition removed :: "SparseSet \<Rightarrow> Goent \<Rightarrow> SparseSet" where
  "removed ss entity =
     (let k = nat (int_of_Goent entity);
          index = nat (sparse ss ! k);
          lastIndex = length (dense ss) - 1;
          lastEntity = dense ss ! lastIndex
      in \<lparr>dense = take lastIndex ((dense ss)[index := lastEntity]),
          components = take lastIndex ((components ss)[index := components ss ! lastIndex]),
          sparse = (sparse ss)[nat (int_of_Goent lastEntity) := int index, k := invalidIndex]\<rparr>)"

text \<open>An empty heap whose cells all hold a default value.\<close>

definition heap0 :: "'c \<Rightarrow> 'c heap" where
  "heap0 d = \<lparr>cells = (\<lambda>a. d), fresh = 0\<rparr>"




text \<open>Emplacing a list of entities with their values, in order, into one sparse set.\<close>

fun emplace_all ::
  "(Goent \<times> 'c) list \<Rightarrow> SparseSet \<Rightarrow> 'c heap \<Rightarrow> panic + SparseSet \<times> 'c heap" where
  "emplace_all [] ss h = Inr (ss, h)"
| "emplace_all ((entity, v) # rest) ss h =
     (case Emplace ss entity v h of
        Inl p \<Rightarrow> Inl p
      | Inr (ss', h') \<Rightarrow> emplace_all rest ss' h')"

text \<open>
  The invariant of a registry, against \<open>owners\<close>: for every component type the association
  of entities to the component cells they hold. A type with no sparse set has no owner;
  the sparse set of a type satisfies its invariant for the owners of that type.
  \<open>Registry_cells\<close> says that the cells of every sparse set are distinct and allocated.
\<close>

definition Registry_inv :: "Registry \<Rightarrow> (rtype \<Rightarrow> Goent \<Rightarrow> addr option) \<Rightarrow> bool" where
  "Registry_inv r owners \<longleftrightarrow>
     (\<forall>T. case storages r T of
            None \<Rightarrow> owners T = (\<lambda>e. None)
          | Some ss \<Rightarrow> SparseSet_inv ss (owners T))"

definition Registry_cells :: "Registry \<Rightarrow> 'c heap \<Rightarrow> bool" where
  "Registry_cells r h \<longleftrightarrow> (\<forall>T ss. storages r T = Some ss \<longrightarrow> cells_inv ss h)"

text \<open>Emplacing a list of components, each with its type and entity, in order.\<close>

fun emplace_components ::
  "(rtype \<times> Goent \<times> 'c) list \<Rightarrow> Registry \<Rightarrow> 'c heap \<Rightarrow> panic + Registry \<times> 'c heap" where
  "emplace_components [] r h = Inr (r, h)"
| "emplace_components ((T, entity, v) # rest) r h =
     (case EmplaceComponent T r entity v h of
        Inl p \<Rightarrow> Inl p
      | Inr (r', h') \<Rightarrow> emplace_components rest r' h')"

section \<open>Properties of the sparse set\<close>

lemma int64_id: "- (2 ^ 63) \<le> k \<Longrightarrow> k < 2 ^ 63 \<Longrightarrow> int64 k = k"
  by (simp add: int64_def signed_take_bit_int_eq_self)

lemma int_of_Goent_range: "- (2 ^ 63) \<le> int_of_Goent e \<and> int_of_Goent e < 2 ^ 63"
  using sint_ge [of e] sint_lt [of e] by (simp add: int_of_Goent_def)

lemma int_of_Goent_inj: "int_of_Goent a = int_of_Goent b \<Longrightarrow> a = b"
  by (simp add: int_of_Goent_def signed_word_eqI)

lemma smod_nonneg: "0 \<le> n \<Longrightarrow> n smod 256 = n mod (256::int)"
  by (simp add: signed_modulo_int_def sgn_if)

lemma sdiv_nonneg: "0 \<le> n \<Longrightarrow> n sdiv 256 = n div (256::int)"
  by (simp add: signed_divide_int_def sgn_if)

lemma nextAlignedCapacity_nonneg:
  assumes "0 \<le> n" "n \<le> 2 ^ 63 - 256"
  shows "nextAlignedCapacity n = (if n mod 256 = 0 then n else (n div 256 + 1) * 256)"
proof (cases "n mod 256 = 0")
  case True
  then show ?thesis using assms by (simp add: nextAlignedCapacity_def alignment_def smod_nonneg)
next
  case False
  have d: "0 \<le> n div 256" using assms by simp
  have "n div 256 * 256 \<le> n" by simp
  have "n < 2 ^ 63 - 256" using assms False by (cases "n = 2 ^ 63 - 256") auto
  then have u: "n div 256 + 1 \<le> 2 ^ 55 - 1" by simp
  have a: "int64 (n div 256 + 1) = n div 256 + 1"
    using d u by (intro int64_id) simp_all
  have b: "int64 ((n div 256 + 1) * 256) = (n div 256 + 1) * 256"
    using d u by (intro int64_id) simp_all
  show ?thesis
    using False assms a b by (simp add: nextAlignedCapacity_def alignment_def smod_nonneg sdiv_nonneg)
qed

lemma nextAlignedCapacity_bounds:
  assumes "0 \<le> n" "n \<le> 2 ^ 63 - 256"
  shows "n \<le> nextAlignedCapacity n \<and> nextAlignedCapacity n < n + 256"
proof (cases "n mod 256 = 0")
  case True
  then show ?thesis by (simp add: nextAlignedCapacity_nonneg [OF assms])
next
  case False
  have "nextAlignedCapacity n = (n div 256 + 1) * 256"
    using False by (simp add: nextAlignedCapacity_nonneg [OF assms])
  moreover have "0 \<le> n mod 256" "n mod 256 < 256" by simp_all
  ultimately show ?thesis using False by presburger
qed

lemma index_inv_linked: "index_inv ss \<longleftrightarrow> linked ss"
proof
  assume inv: "index_inv ss"
  have a: "length (components ss) = length (dense ss)"
    using inv by (simp add: index_inv_def)
  have b: "0 \<le> int_of_Goent (dense ss ! i) \<and> int_of_Goent (dense ss ! i) < len (sparse ss)"
    if "i < length (dense ss)" for i
    using inv that by (simp add: index_inv_def)
  have c: "(sparse ss ! j = int i) = (int_of_Goent (dense ss ! i) = int j)"
    if "i < length (dense ss)" "j < length (sparse ss)" for i j
    using inv that by (simp add: index_inv_def)
  have d: "(sparse ss ! j = invalidIndex) = (\<forall>i<length (dense ss). int_of_Goent (dense ss ! i) \<noteq> int j)"
    if "j < length (sparse ss)" for j
    using inv that by (simp add: index_inv_def)
  have l2: "sparse ss ! nat (int_of_Goent (dense ss ! i)) = int i" if i: "i < length (dense ss)" for i
  proof -
    have "nat (int_of_Goent (dense ss ! i)) < length (sparse ss)"
      using b [OF i] by (simp add: len_def nat_less_iff)
    from c [OF i this] show ?thesis using b [OF i] by simp
  qed
  have l3: "0 \<le> sparse ss ! j \<and> sparse ss ! j < len (dense ss) \<and>
          int_of_Goent (dense ss ! nat (sparse ss ! j)) = int j"
    if j: "j < length (sparse ss)" and n: "sparse ss ! j \<noteq> invalidIndex" for j
  proof -
    from d [OF j] n obtain i where i: "i < length (dense ss)" "int_of_Goent (dense ss ! i) = int j"
      by auto
    with c [OF i(1) j] have "sparse ss ! j = int i" by simp
    with i show ?thesis by (simp add: len_def)
  qed
  show "linked ss"
    unfolding linked_def using a b l2 l3 by blast
next
  assume l: "linked ss"
  have a: "length (components ss) = length (dense ss)"
    using l by (simp add: linked_def)
  have b: "0 \<le> int_of_Goent (dense ss ! i) \<and> int_of_Goent (dense ss ! i) < len (sparse ss) \<and>
        sparse ss ! nat (int_of_Goent (dense ss ! i)) = int i"
    if "i < length (dense ss)" for i
    using l that by (simp add: linked_def)
  have c: "0 \<le> sparse ss ! j \<and> sparse ss ! j < len (dense ss) \<and>
          int_of_Goent (dense ss ! nat (sparse ss ! j)) = int j"
    if "j < length (sparse ss)" "sparse ss ! j \<noteq> invalidIndex" for j
    using l that by (simp add: linked_def)
  have p: "(sparse ss ! j = int i) = (int_of_Goent (dense ss ! i) = int j)"
    if i: "i < length (dense ss)" and j: "j < length (sparse ss)" for i j
  proof
    assume e: "sparse ss ! j = int i"
    then have "sparse ss ! j \<noteq> invalidIndex" by (simp add: invalidIndex_def)
    from c [OF j this] e show "int_of_Goent (dense ss ! i) = int j" by simp
  next
    assume "int_of_Goent (dense ss ! i) = int j"
    with b [OF i] show "sparse ss ! j = int i" by simp
  qed
  have q: "(sparse ss ! j = invalidIndex) = (\<forall>i<length (dense ss). int_of_Goent (dense ss ! i) \<noteq> int j)"
    if j: "j < length (sparse ss)" for j
  proof
    assume e: "sparse ss ! j = invalidIndex"
    show "\<forall>i<length (dense ss). int_of_Goent (dense ss ! i) \<noteq> int j"
    proof (intro allI impI notI)
      fix i assume i: "i < length (dense ss)" and "int_of_Goent (dense ss ! i) = int j"
      with b [OF i] have "sparse ss ! j = int i" by simp
      with e show False by (simp add: invalidIndex_def)
    qed
  next
    assume n: "\<forall>i<length (dense ss). int_of_Goent (dense ss ! i) \<noteq> int j"
    show "sparse ss ! j = invalidIndex"
    proof (rule ccontr)
      assume "sparse ss ! j \<noteq> invalidIndex"
      from c [OF j this] have "nat (sparse ss ! j) < length (dense ss)"
        "int_of_Goent (dense ss ! nat (sparse ss ! j)) = int j" by (simp_all add: len_def nat_less_iff)
      with n show False by blast
    qed
  qed
  show "index_inv ss"
    unfolding index_inv_def using a b p q by auto
qed

lemma linked_comps: "linked ss \<Longrightarrow> length (components ss) = length (dense ss)"
  by (simp add: linked_def)

lemma linked_dense:
  "linked ss \<Longrightarrow> i < length (dense ss) \<Longrightarrow>
     0 \<le> int_of_Goent (dense ss ! i) \<and> int_of_Goent (dense ss ! i) < len (sparse ss) \<and>
     sparse ss ! nat (int_of_Goent (dense ss ! i)) = int i"
  by (simp add: linked_def)

lemma linked_sparse:
  "linked ss \<Longrightarrow> j < length (sparse ss) \<Longrightarrow> sparse ss ! j \<noteq> invalidIndex \<Longrightarrow>
     0 \<le> sparse ss ! j \<and> sparse ss ! j < len (dense ss) \<and>
     int_of_Goent (dense ss ! nat (sparse ss ! j)) = int j"
  by (simp add: linked_def)

lemma Get_Some_iff:
  "Get ss e = Inr (Some a) \<longleftrightarrow>
     0 \<le> int_of_Goent e \<and> int_of_Goent e < len (sparse ss) \<and>
     sparse ss ! nat (int_of_Goent e) \<noteq> invalidIndex \<and>
     0 \<le> sparse ss ! nat (int_of_Goent e) \<and>
     sparse ss ! nat (int_of_Goent e) < len (components ss) \<and>
     a = components ss ! nat (sparse ss ! nat (int_of_Goent e))"
  by (auto simp: Get_def Let_def slice_get_def split: sum.splits if_splits)

lemma Get_None_iff:
  "Get ss e = Inr None \<longleftrightarrow>
     len (sparse ss) \<le> int_of_Goent e \<or>
     (0 \<le> int_of_Goent e \<and> sparse ss ! nat (int_of_Goent e) = invalidIndex)"
  by (auto simp: Get_def Let_def slice_get_def split: sum.splits if_splits)

lemma Get_negative: "int_of_Goent e < 0 \<Longrightarrow> Get ss e = Inl IndexOutOfRange"
  by (simp add: Get_def Let_def slice_get_def len_def)

lemma linked_dense_distinct:
  assumes "linked ss"
  shows "distinct (dense ss)"
proof -
  have eq: "i = j" if "i < length (dense ss)" "j < length (dense ss)" "dense ss ! i = dense ss ! j" for i j
  proof -
    have "sparse ss ! nat (int_of_Goent (dense ss ! i)) = int i"
      "sparse ss ! nat (int_of_Goent (dense ss ! j)) = int j"
      using linked_dense [OF assms, of i] linked_dense [OF assms, of j] that(1,2) by simp_all
    then show ?thesis unfolding that(3) by simp
  qed
  show ?thesis
    unfolding distinct_conv_nth
  proof (intro allI impI)
    fix i j
    assume "i < length (dense ss)" "j < length (dense ss)" "i \<noteq> j"
    then show "dense ss ! i \<noteq> dense ss ! j" using eq [of i j] by auto
  qed
qed

lemma linked_mem_dense:
  assumes "linked ss"
  shows "e \<in> set (dense ss) \<longleftrightarrow>
     0 \<le> int_of_Goent e \<and> int_of_Goent e < len (sparse ss) \<and>
     sparse ss ! nat (int_of_Goent e) \<noteq> invalidIndex"
proof
  assume "e \<in> set (dense ss)"
  then obtain i where i: "i < length (dense ss)" "dense ss ! i = e"
    by (auto simp: in_set_conv_nth)
  with linked_dense [OF assms, of i] have "0 \<le> int_of_Goent e \<and> int_of_Goent e < len (sparse ss) \<and>
        sparse ss ! nat (int_of_Goent e) = int i"
    by simp
  then show "0 \<le> int_of_Goent e \<and> int_of_Goent e < len (sparse ss) \<and>
     sparse ss ! nat (int_of_Goent e) \<noteq> invalidIndex"
    by (simp add: invalidIndex_def)
next
  assume a: "0 \<le> int_of_Goent e \<and> int_of_Goent e < len (sparse ss) \<and>
     sparse ss ! nat (int_of_Goent e) \<noteq> invalidIndex"
  then have j: "nat (int_of_Goent e) < length (sparse ss)"
    by (simp add: len_def nat_less_iff)
  with linked_sparse [OF assms, of "nat (int_of_Goent e)"] a
  have "0 \<le> sparse ss ! nat (int_of_Goent e) \<and>
      sparse ss ! nat (int_of_Goent e) < len (dense ss) \<and>
      int_of_Goent (dense ss ! nat (sparse ss ! nat (int_of_Goent e))) = int (nat (int_of_Goent e))"
    by simp
  with a have "nat (sparse ss ! nat (int_of_Goent e)) < length (dense ss)"
    "dense ss ! nat (sparse ss ! nat (int_of_Goent e)) = e"
    by (auto simp: len_def nat_less_iff intro: int_of_Goent_inj)
  then show "e \<in> set (dense ss)"
    by (metis nth_mem)
qed

lemma linked_Get:
  assumes "linked ss"
  shows "Get ss e =
     (if int_of_Goent e < 0 then Inl IndexOutOfRange
      else if e \<in> set (dense ss)
        then Inr (Some (components ss ! nat (sparse ss ! nat (int_of_Goent e))))
      else Inr None)"
proof (cases "int_of_Goent e < 0")
  case True
  then show ?thesis by (simp add: Get_negative)
next
  case nonneg: False
  show ?thesis
  proof (cases "e \<in> set (dense ss)")
    case True
    with linked_mem_dense [OF assms, of e]
    have a: "0 \<le> int_of_Goent e" "int_of_Goent e < len (sparse ss)"
      "sparse ss ! nat (int_of_Goent e) \<noteq> invalidIndex" by simp_all
    then have "nat (int_of_Goent e) < length (sparse ss)"
      by (simp add: len_def nat_less_iff)
    with linked_sparse [OF assms, of "nat (int_of_Goent e)"] a linked_comps [OF assms]
    have "0 \<le> sparse ss ! nat (int_of_Goent e) \<and>
      sparse ss ! nat (int_of_Goent e) < len (components ss)"
      by (simp add: len_def)
    with a True nonneg show ?thesis by (simp add: Get_Some_iff)
  next
    case False
    with linked_mem_dense [OF assms, of e] nonneg
    have "len (sparse ss) \<le> int_of_Goent e \<or>
     (0 \<le> int_of_Goent e \<and> sparse ss ! nat (int_of_Goent e) = invalidIndex)" by auto
    with False nonneg show ?thesis by (simp add: Get_None_iff)
  qed
qed

lemma linked_NewSparseSet: "linked NewSparseSet"
  by (simp add: linked_def NewSparseSet_def)

lemma Emplace_overwrite:
  assumes "Get ss e = Inr (Some a)"
  shows "Emplace ss e v h = Inr (ss, store a v h)"
  using assms unfolding Get_Some_iff
  by (simp add: Emplace_def Let_def slice_get_def)

lemma nextAlignedCapacity_limit:
  assumes "0 \<le> n" "n \<le> 2 ^ 45"
  shows "8 * nextAlignedCapacity n \<le> maxAlloc"
proof -
  have n: "n \<le> 2 ^ 63 - 256"
  proof -
    have "(2::int) ^ 45 \<le> 2 ^ 63 - 256" by simp
    with assms(2) show ?thesis by (rule order_trans)
  qed
  have "nextAlignedCapacity n \<le> 2 ^ 45"
  proof (cases "n mod 256 = 0")
    case True
    then show ?thesis using assms(2) by (simp add: nextAlignedCapacity_nonneg [OF assms(1) n])
  next
    case False
    have "n \<noteq> 2 ^ 45" using False by auto
    with assms(2) have "n \<le> 2 ^ 45 - 1" by simp
    then have "n div 256 \<le> (2 ^ 45 - 1) div 256" by (rule zdiv_mono1) simp
    also have "(2 ^ 45 - 1) div 256 = (2 ^ 37 - 1 :: int)" by simp
    finally have "(n div 256 + 1) * 256 \<le> 2 ^ 37 * 256" by simp
    then show ?thesis using False by (simp add: nextAlignedCapacity_nonneg [OF assms(1) n])
  qed
  then show ?thesis by (simp add: maxAlloc_def)
qed

lemma grown_length:
  assumes "0 \<le> int_of_Goent e" "int_of_Goent e < len sp \<or> int_of_Goent e < 2 ^ 45"
  shows "int_of_Goent e < len (grown sp e)" "length sp \<le> length (grown sp e)"
proof -
  show "int_of_Goent e < len (grown sp e)"
  proof (cases "int_of_Goent e < len sp")
    case True
    then show ?thesis by (simp add: grown_def)
  next
    case False
    with assms have "int_of_Goent e + 1 \<le> nextAlignedCapacity (int_of_Goent e + 1)"
      using nextAlignedCapacity_bounds [of "int_of_Goent e + 1"] by simp
    then show ?thesis by (auto simp: grown_def len_def)
  qed
  show "length sp \<le> length (grown sp e)"
    by (simp add: grown_def)
qed

lemma grown_nth:
  "j < length (grown sp e) \<Longrightarrow>
     grown sp e ! j = (if j < length sp then sp ! j else invalidIndex)"
  by (auto simp: grown_def nth_append)

lemma Emplace_grow_step:
  assumes "0 \<le> int_of_Goent e" "int_of_Goent e < 2 ^ 45" "len sp \<le> int_of_Goent e"
  shows "(case make_sparse (nextAlignedCapacity (int64 (int_of_Goent e + 1))) of
            Inl p \<Rightarrow> Inl p
          | Inr newSparse \<Rightarrow> Inr (copy_slice newSparse sp)) = Inr (grown sp e)"
proof -
  let ?n = "nextAlignedCapacity (int_of_Goent e + 1)"
  have w: "int64 (int_of_Goent e + 1) = int_of_Goent e + 1"
    using assms by (intro int64_id) simp_all
  have n: "int_of_Goent e + 1 \<le> ?n"
    using nextAlignedCapacity_bounds [of "int_of_Goent e + 1"] assms by simp
  then have l: "length sp \<le> nat ?n" using assms by (simp add: len_def)
  have "copy_slice (replicate (nat ?n) invalidIndex) sp = sp @ replicate (nat ?n - length sp) invalidIndex"
    using l by (simp add: copy_slice_def)
  moreover have "8 * ?n \<le> maxAlloc"
    using nextAlignedCapacity_limit [of "int_of_Goent e + 1"] assms by simp
  ultimately show ?thesis
    using n assms by (simp add: w make_sparse_def grown_def)
qed

lemma Emplace_append:
  assumes "0 \<le> int_of_Goent e"
    "int_of_Goent e < len (sparse ss) \<or> int_of_Goent e < 2 ^ 45" "Get ss e = Inr None"
  shows "Emplace ss e v h = Inr (appended ss e (fresh h), snd (new_cell v h))"
proof -
  let ?g = "grown (sparse ss) e"
  have g: "(if len (sparse ss) \<le> int_of_Goent e then
              (case make_sparse (nextAlignedCapacity (int64 (int_of_Goent e + 1))) of
                 Inl p \<Rightarrow> Inl p
               | Inr newSparse \<Rightarrow> Inr (copy_slice newSparse (sparse ss)))
            else Inr (sparse ss)) = Inr ?g"
    using Emplace_grow_step [OF assms(1), of "sparse ss"] assms(2) by (auto simp: grown_def)
  have r: "int_of_Goent e < len ?g" by (rule grown_length [OF assms(1,2)])
  then have j: "nat (int_of_Goent e) < length ?g"
    using assms(1) by (simp add: len_def nat_less_iff)
  have "?g ! nat (int_of_Goent e) = invalidIndex"
    using assms(1,3) unfolding grown_nth [OF j] Get_None_iff
    by (auto simp: len_def)
  then have s: "slice_get ?g (int_of_Goent e) = Inr invalidIndex"
    using r assms(1) by (simp add: slice_get_def)
  have t: "slice_set ?g (int_of_Goent e) (len (dense ss)) =
      Inr (?g[nat (int_of_Goent e) := len (dense ss)])"
    using r assms(1) by (simp add: slice_set_def)
  show ?thesis
    unfolding Emplace_def Let_def g
    by (simp add: s t new_cell_def appended_def)
qed

lemma linked_appended:
  assumes l: "linked ss" and e: "0 \<le> int_of_Goent e"
    "int_of_Goent e < len (sparse ss) \<or> int_of_Goent e < 2 ^ 45"
    and n: "e \<notin> set (dense ss)"
  shows "linked (appended ss e a)"
proof -
  let ?g = "grown (sparse ss) e"
  let ?k = "nat (int_of_Goent e)"
  let ?s = "?g[?k := len (dense ss)]"
  have r: "int_of_Goent e < len ?g" and gl: "length (sparse ss) \<le> length ?g"
    by (rule grown_length [OF e])+
  have k: "?k < length ?g" using r e(1) by (simp add: len_def nat_less_iff)
  have d: "0 \<le> int_of_Goent ((dense ss @ [e]) ! i) \<and>
        int_of_Goent ((dense ss @ [e]) ! i) < len ?s \<and>
        ?s ! nat (int_of_Goent ((dense ss @ [e]) ! i)) = int i"
    if i: "i < length (dense ss @ [e])" for i
  proof (cases "i < length (dense ss)")
    case True
    from linked_dense [OF l True]
    have o: "0 \<le> int_of_Goent (dense ss ! i)" "int_of_Goent (dense ss ! i) < len (sparse ss)"
      "sparse ss ! nat (int_of_Goent (dense ss ! i)) = int i" by simp_all
    have "dense ss ! i \<noteq> e" using n True by (metis nth_mem)
    then have "int_of_Goent (dense ss ! i) \<noteq> int_of_Goent e"
      using int_of_Goent_inj by blast
    then have ne: "nat (int_of_Goent (dense ss ! i)) \<noteq> ?k"
      using o(1) e(1) by simp
    have lt: "nat (int_of_Goent (dense ss ! i)) < length (sparse ss)"
      using o by (simp add: len_def nat_less_iff)
    then have "?g ! nat (int_of_Goent (dense ss ! i)) = int i"
      using gl o(3) by (simp add: grown_nth)
    then show ?thesis
      using True o gl ne by (simp add: nth_append len_def)
  next
    case False
    with i have "i = length (dense ss)" by simp
    then show ?thesis using e(1) r k by (simp add: len_def)
  qed
  have s: "0 \<le> ?s ! j \<and> ?s ! j < len (dense ss @ [e]) \<and>
          int_of_Goent ((dense ss @ [e]) ! nat (?s ! j)) = int j"
    if j: "j < length ?s" and v: "?s ! j \<noteq> invalidIndex" for j
  proof (cases "j = ?k")
    case True
    then show ?thesis using k e(1) by (simp add: len_def)
  next
    case False
    then have eq: "?s ! j = ?g ! j" by simp
    have jg: "j < length ?g" using j by simp
    have js: "j < length (sparse ss)"
      using v unfolding eq grown_nth [OF jg] by (auto split: if_splits)
    then have "?g ! j = sparse ss ! j" by (simp add: grown_nth [OF jg])
    with eq v linked_sparse [OF l js]
    have "0 \<le> ?s ! j \<and> ?s ! j < len (dense ss) \<and>
          int_of_Goent (dense ss ! nat (?s ! j)) = int j" by simp
    then show ?thesis by (simp add: len_def nth_append nat_less_iff)
  qed
  show ?thesis
    unfolding linked_def appended_def
    using d s linked_comps [OF l] by simp
qed

lemma cells_inv_appended:
  "cells_inv ss h \<Longrightarrow> cells_inv (appended ss e (fresh h)) (snd (new_cell v h))"
  by (auto simp: cells_inv_def appended_def new_cell_def less_Suc_eq)

lemma cells_inv_store: "cells_inv ss h \<Longrightarrow> cells_inv ss (store a v h)"
  by (simp add: cells_inv_def store_def)

lemma linked_Get_Some:
  assumes "linked ss"
  shows "Get ss e = Inr (Some a) \<longleftrightarrow> (\<exists>i<length (dense ss). dense ss ! i = e \<and> components ss ! i = a)"
proof
  assume g: "Get ss e = Inr (Some a)"
  then have m: "e \<in> set (dense ss)" and n: "0 \<le> int_of_Goent e"
    and a: "a = components ss ! nat (sparse ss ! nat (int_of_Goent e))"
    unfolding linked_Get [OF assms] by (auto split: if_splits)
  then obtain i where i: "i < length (dense ss)" "dense ss ! i = e"
    by (auto simp: in_set_conv_nth)
  with linked_dense [OF assms i(1)] have "sparse ss ! nat (int_of_Goent e) = int i" by simp
  with a i show "\<exists>i<length (dense ss). dense ss ! i = e \<and> components ss ! i = a" by auto
next
  assume "\<exists>i<length (dense ss). dense ss ! i = e \<and> components ss ! i = a"
  then obtain i where i: "i < length (dense ss)" "dense ss ! i = e" "components ss ! i = a" by blast
  from linked_dense [OF assms i(1)] i(2)
  have "0 \<le> int_of_Goent e" "sparse ss ! nat (int_of_Goent e) = int i" by simp_all
  moreover have "e \<in> set (dense ss)" using i by (metis nth_mem)
  ultimately show "Get ss e = Inr (Some a)"
    unfolding linked_Get [OF assms] using i(3) by simp
qed

lemma linked_Get_None:
  assumes "linked ss"
  shows "Get ss e = Inr None \<longleftrightarrow> 0 \<le> int_of_Goent e \<and> e \<notin> set (dense ss)"
  unfolding linked_Get [OF assms] by auto

lemma linked_Get_panic:
  assumes "linked ss"
  shows "Get ss e = Inl p \<longleftrightarrow> int_of_Goent e < 0 \<and> p = IndexOutOfRange"
  unfolding linked_Get [OF assms] by auto

text \<open>Two linked sets with the same other entries answer Get alike.\<close>

lemma linked_Get_cong:
  assumes l: "linked ss" and l': "linked ss'"
    and s: "\<And>i. i < length (dense ss) \<Longrightarrow> dense ss ! i = e \<Longrightarrow>
             \<exists>i'<length (dense ss'). dense ss' ! i' = e \<and> components ss' ! i' = components ss ! i"
    and n: "e \<notin> set (dense ss) \<Longrightarrow> e \<notin> set (dense ss')"
  shows "Get ss' e = Get ss e"
proof (cases "Get ss e")
  case (Inl p)
  then have "Get ss' e = Inl p"
    using linked_Get_panic [OF l, of e p] linked_Get_panic [OF l', of e p] by simp
  with Inl show ?thesis by simp
next
  case (Inr g)
  show ?thesis
  proof (cases g)
    case None
    with Inr have "0 \<le> int_of_Goent e \<and> e \<notin> set (dense ss)"
      using linked_Get_None [OF l, of e] by simp
    with n have "Get ss' e = Inr None"
      using linked_Get_None [OF l', of e] by simp
    with Inr None show ?thesis by simp
  next
    case (Some a)
    with Inr have "Get ss e = Inr (Some a)" by simp
    then obtain i where i: "i < length (dense ss)" "dense ss ! i = e" "components ss ! i = a"
      unfolding linked_Get_Some [OF l] by blast
    from s [OF i(1,2)] i(3) have "Get ss' e = Inr (Some a)"
      unfolding linked_Get_Some [OF l'] by simp
    with Inr Some show ?thesis by simp
  qed
qed

lemma Remove_absent: "Get ss e = Inr None \<Longrightarrow> Remove ss e = Inr ss"
  unfolding Get_None_iff
  by (auto simp: Remove_def Let_def slice_get_def)

lemma Remove_negative: "int_of_Goent e < 0 \<Longrightarrow> Remove ss e = Inl IndexOutOfRange"
  by (simp add: Remove_def Let_def slice_get_def len_def)

lemma Remove_present:
  assumes l: "linked ss" and m: "e \<in> set (dense ss)"
  shows "Remove ss e = Inr (removed ss e)"
proof -
  let ?k = "nat (int_of_Goent e)"
  from m obtain i where i: "i < length (dense ss)" "dense ss ! i = e"
    by (auto simp: in_set_conv_nth)
  then obtain n where n: "length (dense ss) = Suc n"
    by (cases "dense ss") auto
  from linked_dense [OF l i(1)] i(2)
  have e: "0 \<le> int_of_Goent e" "int_of_Goent e < len (sparse ss)" "sparse ss ! ?k = int i"
    by simp_all
  from linked_dense [OF l, of n] n
  have la: "0 \<le> int_of_Goent (dense ss ! n)" "int_of_Goent (dense ss ! n) < len (sparse ss)"
    by simp_all
  have c: "length (components ss) = Suc n" using linked_comps [OF l] n by simp
  have q: "len (dense ss) - 1 = int n" by (simp add: len_def n)
  have 1: "slice_get (sparse ss) (int_of_Goent e) = Inr (int i)"
    using e by (simp add: slice_get_def)
  have 2: "int i \<noteq> invalidIndex" by (simp add: invalidIndex_def)
  have 3: "slice_get (dense ss) (int n) = Inr (dense ss ! n)"
    by (simp add: slice_get_def len_def n)
  have 4: "slice_set (dense ss) (int i) v = Inr ((dense ss)[i := v])" for v
    using i(1) by (simp add: slice_set_def len_def)
  have 5: "slice_get (components ss) (int n) = Inr (components ss ! n)"
    by (simp add: slice_get_def len_def c)
  have 6: "slice_set (components ss) (int i) v = Inr ((components ss)[i := v])" for v
    using i(1) c n by (simp add: slice_set_def len_def)
  have 7: "slice_set (sparse ss) (int_of_Goent (dense ss ! n)) v =
      Inr ((sparse ss)[nat (int_of_Goent (dense ss ! n)) := v])" for v
    using la by (simp add: slice_set_def)
  have 8: "slice_to ((dense ss)[i := v]) (int n) = Inr (take n ((dense ss)[i := v]))" for v
    by (simp add: slice_to_def len_def n)
  have 9: "slice_to ((components ss)[i := v]) (int n) =
      Inr (take n ((components ss)[i := v]))" for v
    by (simp add: slice_to_def len_def c)
  have 10: "slice_set ((sparse ss)[j := w]) (int_of_Goent e) v = Inr ((sparse ss)[j := w, ?k := v])" for j w v
    using e by (simp add: slice_set_def len_def)
  have r: "removed ss e =
     \<lparr>dense = take n ((dense ss)[i := dense ss ! n]),
      components = take n ((components ss)[i := components ss ! n]),
      sparse = (sparse ss)[nat (int_of_Goent (dense ss ! n)) := int i, ?k := invalidIndex]\<rparr>"
    by (simp add: removed_def Let_def e(3) n)
  have "\<not> len (sparse ss) \<le> int_of_Goent e" using e by simp
  then show ?thesis
    unfolding Remove_def Let_def q r
    by (simp add: 1 2 3 4 5 6 7 8 9 10)
qed

lemma removed_eq:
  assumes l: "linked ss" and i: "i < length (dense ss)" "dense ss ! i = e"
    and n: "length (dense ss) = Suc n"
  shows "removed ss e =
     \<lparr>dense = take n ((dense ss)[i := dense ss ! n]),
      components = take n ((components ss)[i := components ss ! n]),
      sparse = (sparse ss)[nat (int_of_Goent (dense ss ! n)) := int i,
                 nat (int_of_Goent e) := invalidIndex]\<rparr>"
proof -
  from linked_dense [OF l i(1)] i(2)
  have "sparse ss ! nat (int_of_Goent e) = int i" by simp
  then show ?thesis by (simp add: removed_def Let_def n)
qed

lemma pos_eq_iff:
  "0 \<le> int_of_Goent a \<Longrightarrow> 0 \<le> int_of_Goent b \<Longrightarrow>
     nat (int_of_Goent a) = nat (int_of_Goent b) \<longleftrightarrow> a = b"
  using int_of_Goent_inj [of a b] by auto

lemma linked_removed:
  assumes l: "linked ss" and m: "e \<in> set (dense ss)"
  shows "linked (removed ss e)"
proof -
  from m obtain x where x: "x < length (dense ss)" "dense ss ! x = e"
    by (auto simp: in_set_conv_nth)
  then obtain n where n: "length (dense ss) = Suc n"
    by (cases "dense ss") auto
  let ?last = "dense ss ! n"
  let ?k = "nat (int_of_Goent e)"
  let ?kl = "nat (int_of_Goent ?last)"
  let ?d = "take n ((dense ss)[x := ?last])"
  let ?c = "take n ((components ss)[x := components ss ! n])"
  let ?s = "(sparse ss)[?kl := int x, ?k := invalidIndex]"
  have r: "removed ss e = \<lparr>dense = ?d, components = ?c, sparse = ?s\<rparr>"
    by (rule removed_eq [OF l x n])
  have dist: "distinct (dense ss)" by (rule linked_dense_distinct [OF l])
  have D: "0 \<le> int_of_Goent (dense ss ! i)" "int_of_Goent (dense ss ! i) < len (sparse ss)"
    "nat (int_of_Goent (dense ss ! i)) < length (sparse ss)"
    "sparse ss ! nat (int_of_Goent (dense ss ! i)) = int i"
    if "i \<le> n" for i
    using linked_dense [OF l, of i] that n by (simp_all add: len_def nat_less_iff)
  have P: "nat (int_of_Goent (dense ss ! i)) = nat (int_of_Goent (dense ss ! j)) \<longleftrightarrow> i = j"
    if "i \<le> n" "j \<le> n" for i j
    using D(1) [OF that(1)] D(1) [OF that(2)] dist that n
    by (simp add: pos_eq_iff nth_eq_iff_index_eq)
  have xn: "x \<le> n" using x(1) n by simp
  have k: "?k = nat (int_of_Goent (dense ss ! x))" by (simp add: x(2))
  have dn: "?d ! i = (if i = x then ?last else dense ss ! i)" if "i < n" for i
    using that n by (simp add: nth_list_update)
  have d: "0 \<le> int_of_Goent (?d ! i) \<and> int_of_Goent (?d ! i) < len ?s \<and>
        ?s ! nat (int_of_Goent (?d ! i)) = int i"
    if i: "i < length ?d" for i
  proof -
    have "i < n" using i n by simp
    show ?thesis
    proof (cases "i = x")
      case True
      then have "x < n" using \<open>i < n\<close> by simp
      then have "?kl \<noteq> ?k" unfolding k using P [of n x] by simp
      moreover have di: "?d ! i = ?last" using True dn [OF \<open>i < n\<close>] by simp
      ultimately show ?thesis
        unfolding di using True D [of n] by (simp add: len_def)
    next
      case False
      have "nat (int_of_Goent (dense ss ! i)) \<noteq> ?k"
        unfolding k using P [of i x] False \<open>i < n\<close> xn by simp
      moreover have "nat (int_of_Goent (dense ss ! i)) \<noteq> ?kl"
        using P [of i n] \<open>i < n\<close> by simp
      moreover have di: "?d ! i = dense ss ! i" using False dn [OF \<open>i < n\<close>] by simp
      ultimately show ?thesis
        unfolding di using D [of i] \<open>i < n\<close> by (simp add: len_def)
    qed
  qed
  have s: "0 \<le> ?s ! j \<and> ?s ! j < len ?d \<and> int_of_Goent (?d ! nat (?s ! j)) = int j"
    if j: "j < length ?s" and v: "?s ! j \<noteq> invalidIndex" for j
  proof -
    have jk: "j \<noteq> ?k" using v j by (auto simp: nth_list_update)
    show ?thesis
    proof (cases "j = ?kl")
      case True
      then have "?kl \<noteq> ?k" using jk by simp
      then have "x \<noteq> n" unfolding k by auto
      then have "x < n" using xn by simp
      moreover have "?s ! j = int x" using True jk j by simp
      moreover have "?d ! x = ?last" using dn [OF \<open>x < n\<close>] by simp
      ultimately show ?thesis
        using True D [of n] n by (simp add: len_def)
    next
      case False
      then have eq: "?s ! j = sparse ss ! j" using jk by simp
      have js: "j < length (sparse ss)" using j by simp
      from linked_sparse [OF l js] v eq
      have o: "0 \<le> sparse ss ! j" "sparse ss ! j < len (dense ss)"
        "int_of_Goent (dense ss ! nat (sparse ss ! j)) = int j" by simp_all
      let ?i = "nat (sparse ss ! j)"
      have il: "?i \<le> n" using o n by (simp add: len_def)
      have "?i \<noteq> n" using o(3) False by auto
      moreover have "?i \<noteq> x" using o(3) jk unfolding k by auto
      ultimately have "?i < n" "?d ! ?i = dense ss ! ?i" using il dn [of ?i] by simp_all
      then show ?thesis
        unfolding eq using o n by (simp add: len_def)
    qed
  qed
  have "length ?c = length ?d" using linked_comps [OF l] by simp
  with d s show ?thesis
    unfolding r linked_def by simp
qed

lemma swap_last_nth:
  assumes "length xs = Suc n" "x \<le> n" "i < n"
  shows "take n (xs[x := xs ! n]) ! i = (if i = x then xs ! n else xs ! i)"
    and "xs[x := xs ! n] ! i = (if i = x then xs ! n else xs ! i)"
  using assms by (simp_all add: nth_list_update)

lemma swap_last_distinct:
  assumes d: "distinct xs" and n: "length xs = Suc n" and x: "x \<le> n"
  shows "distinct (take n (xs[x := xs ! n]))"
  unfolding distinct_conv_nth
proof (intro allI impI)
  fix i j
  assume "i < length (take n (xs[x := xs ! n]))" "j < length (take n (xs[x := xs ! n]))" "i \<noteq> j"
  then have ij: "i < n" "j < n" "i \<noteq> j" using n by simp_all
  have "xs ! a \<noteq> xs ! b" if "a \<le> n" "b \<le> n" "a \<noteq> b" for a b
    using d that n by (simp add: nth_eq_iff_index_eq)
  then show "take n (xs[x := xs ! n]) ! i \<noteq> take n (xs[x := xs ! n]) ! j"
    using ij x by (simp add: swap_last_nth [OF n x])
qed

lemma swap_last_set:
  assumes n: "length xs = Suc n" and x: "x \<le> n"
  shows "set (take n (xs[x := xs ! n])) \<subseteq> set xs"
proof
  fix a assume "a \<in> set (take n (xs[x := xs ! n]))"
  then obtain i where "i < n" "a = take n (xs[x := xs ! n]) ! i"
    using n by (auto simp: in_set_conv_nth)
  then show "a \<in> set xs"
    using n x by (auto simp: swap_last_nth [OF n x])
qed

lemma cells_inv_removed:
  assumes l: "linked ss" and m: "e \<in> set (dense ss)" and c: "cells_inv ss h"
  shows "cells_inv (removed ss e) h"
proof -
  from m obtain x where x: "x < length (dense ss)" "dense ss ! x = e"
    by (auto simp: in_set_conv_nth)
  then obtain n where n: "length (dense ss) = Suc n"
    by (cases "dense ss") auto
  have cn: "length (components ss) = Suc n" using linked_comps [OF l] n by simp
  have xn: "x \<le> n" using x(1) n by simp
  have "components (removed ss e) = take n ((components ss)[x := components ss ! n])"
    by (simp add: removed_eq [OF l x n])
  with c swap_last_distinct [OF _ cn xn] swap_last_set [OF cn xn]
  show ?thesis by (auto simp: cells_inv_def)
qed

lemma removed_dense_set:
  assumes l: "linked ss" and m: "e \<in> set (dense ss)"
  shows "set (dense (removed ss e)) = set (dense ss) - {e}"
proof -
  from m obtain x where x: "x < length (dense ss)" "dense ss ! x = e"
    by (auto simp: in_set_conv_nth)
  then obtain n where n: "length (dense ss) = Suc n"
    by (cases "dense ss") auto
  have xn: "x \<le> n" using x(1) n by simp
  have dist: "distinct (dense ss)" by (rule linked_dense_distinct [OF l])
  let ?d = "take n ((dense ss)[x := dense ss ! n])"
  have r: "dense (removed ss e) = ?d" by (simp add: removed_eq [OF l x n])
  have ne: "dense ss ! a \<noteq> dense ss ! b" if "a \<le> n" "b \<le> n" "a \<noteq> b" for a b
    using dist that n by (simp add: nth_eq_iff_index_eq)
  show ?thesis
  proof (intro equalityI subsetI)
    fix a assume "a \<in> set (dense (removed ss e))"
    then obtain i where i: "i < n" "a = ?d ! i"
      unfolding r using n by (auto simp: in_set_conv_nth)
    then have a: "a = (if i = x then dense ss ! n else dense ss ! i)"
      by (simp add: swap_last_nth [OF n xn])
    then have "a \<in> set (dense ss)" using i n by auto
    moreover have "a \<noteq> e"
      using a i ne [of n x] ne [of i x] xn unfolding x(2) by (auto split: if_splits)
    ultimately show "a \<in> set (dense ss) - {e}" by simp
  next
    fix a assume "a \<in> set (dense ss) - {e}"
    then obtain i where i: "i \<le> n" "dense ss ! i = a" "a \<noteq> e"
      using n by (auto simp: in_set_conv_nth less_Suc_eq_le)
    show "a \<in> set (dense (removed ss e))"
    proof (cases "i = n")
      case True
      with i x have "x < n" using xn by (cases "x = n") auto
      then have "?d ! x = dense ss ! n" by (simp add: swap_last_nth [OF n xn])
      then have "?d ! x = a" using i True by simp
      moreover have "x < length ?d" using \<open>x < n\<close> n by simp
      ultimately show ?thesis unfolding r by (metis nth_mem)
    next
      case False
      then have "i < n" using i by simp
      moreover have "i \<noteq> x" using i x by auto
      ultimately have "?d ! i = a" using i by (simp add: swap_last_nth [OF n xn])
      moreover have "i < length ?d" using \<open>i < n\<close> n by simp
      ultimately show ?thesis unfolding r by (metis nth_mem)
    qed
  qed
qed

lemma Get_removed_other:
  assumes l: "linked ss" and m: "e \<in> set (dense ss)" and o: "e' \<noteq> e"
  shows "Get (removed ss e) e' = Get ss e'"
proof (rule linked_Get_cong [OF l linked_removed [OF l m]])
  from m obtain x where x: "x < length (dense ss)" "dense ss ! x = e"
    by (auto simp: in_set_conv_nth)
  then obtain n where n: "length (dense ss) = Suc n"
    by (cases "dense ss") auto
  have cn: "length (components ss) = Suc n" using linked_comps [OF l] n by simp
  have xn: "x \<le> n" using x(1) n by simp
  let ?d = "take n ((dense ss)[x := dense ss ! n])"
  let ?c = "take n ((components ss)[x := components ss ! n])"
  have r: "dense (removed ss e) = ?d" "components (removed ss e) = ?c"
    by (simp_all add: removed_eq [OF l x n])
  show "\<exists>i'<length (dense (removed ss e)).
          dense (removed ss e) ! i' = e' \<and> components (removed ss e) ! i' = components ss ! i"
    if i: "i < length (dense ss)" "dense ss ! i = e'" for i
  proof (cases "i = n")
    case True
    have "x < n" using o i x True xn by (cases "x = n") auto
    then have "x < length ?d" "?d ! x = e'" "?c ! x = components ss ! i"
      using i True n by (simp_all add: swap_last_nth [OF n xn] swap_last_nth [OF cn xn])
    then show ?thesis unfolding r by blast
  next
    case False
    then have "i < n" using i n by simp
    moreover have "i \<noteq> x" using i x o by auto
    ultimately have "i < length ?d" "?d ! i = e'" "?c ! i = components ss ! i"
      using i n by (simp_all add: swap_last_nth [OF n xn] swap_last_nth [OF cn xn])
    then show ?thesis unfolding r by blast
  qed
  show "e' \<notin> set (dense (removed ss e))" if "e' \<notin> set (dense ss)"
    using that by (simp add: removed_dense_set [OF l m])
qed

lemma Get_removed_same:
  assumes l: "linked ss" and m: "e \<in> set (dense ss)"
  shows "Get (removed ss e) e = Inr None"
proof -
  have "0 \<le> int_of_Goent e" using linked_mem_dense [OF l, of e] m by simp
  then show ?thesis
    unfolding linked_Get_None [OF linked_removed [OF l m]]
    by (simp add: removed_dense_set [OF l m])
qed

lemma Get_appended_same:
  assumes l: "linked ss" and e: "0 \<le> int_of_Goent e"
    "int_of_Goent e < len (sparse ss) \<or> int_of_Goent e < 2 ^ 45"
    and n: "e \<notin> set (dense ss)"
  shows "Get (appended ss e a) e = Inr (Some a)"
proof -
  have "length (components ss) = length (dense ss)" by (rule linked_comps [OF l])
  then have "length (dense ss) < length (dense (appended ss e a)) \<and>
      dense (appended ss e a) ! length (dense ss) = e \<and>
      components (appended ss e a) ! length (dense ss) = a"
    by (simp add: appended_def nth_append)
  then show ?thesis
    unfolding linked_Get_Some [OF linked_appended [OF l e n]] by blast
qed

lemma Get_appended_other:
  assumes l: "linked ss" and e: "0 \<le> int_of_Goent e"
    "int_of_Goent e < len (sparse ss) \<or> int_of_Goent e < 2 ^ 45"
    and n: "e \<notin> set (dense ss)" and o: "e' \<noteq> e"
  shows "Get (appended ss e a) e' = Get ss e'"
proof (rule linked_Get_cong [OF l linked_appended [OF l e n]])
  have c: "length (components ss) = length (dense ss)" by (rule linked_comps [OF l])
  show "\<exists>i'<length (dense (appended ss e a)).
          dense (appended ss e a) ! i' = e' \<and> components (appended ss e a) ! i' = components ss ! i"
    if "i < length (dense ss)" "dense ss ! i = e'" for i
  proof -
    have "i < length (dense (appended ss e a)) \<and> dense (appended ss e a) ! i = e' \<and>
        components (appended ss e a) ! i = components ss ! i"
      using that c by (simp add: appended_def nth_append)
    then show ?thesis by blast
  qed
  show "e' \<notin> set (dense (appended ss e a))" if "e' \<notin> set (dense ss)"
    using that o by (simp add: appended_def)
qed

lemma Emplace_result:
  assumes l: "linked ss" and e: "0 \<le> int_of_Goent e"
    "int_of_Goent e < len (sparse ss) \<or> int_of_Goent e < 2 ^ 45"
  shows "Emplace ss e v h =
     (if e \<in> set (dense ss)
      then Inr (ss, store (components ss ! nat (sparse ss ! nat (int_of_Goent e))) v h)
      else Inr (appended ss e (fresh h), snd (new_cell v h)))"
proof (cases "e \<in> set (dense ss)")
  case True
  then have "Get ss e = Inr (Some (components ss ! nat (sparse ss ! nat (int_of_Goent e))))"
    using e(1) by (simp add: linked_Get [OF l])
  from Emplace_overwrite [OF this] True show ?thesis by simp
next
  case False
  then have "Get ss e = Inr None" using e(1) by (simp add: linked_Get [OF l])
  from Emplace_append [OF e this] False show ?thesis by simp
qed

lemma GetValue_store_other:
  assumes l: "linked ss" and c: "cells_inv ss h" and a: "Get ss e = Inr (Some a)" and o: "e' \<noteq> e"
  shows "GetValue ss (store a v h) e' = GetValue ss h e'"
proof (cases "Get ss e'")
  case (Inl p)
  then show ?thesis by (simp add: GetValue_def)
next
  case (Inr g)
  show ?thesis
  proof (cases g)
    case None
    with Inr show ?thesis by (simp add: GetValue_def)
  next
    case (Some a')
    with Inr have g': "Get ss e' = Inr (Some a')" by simp
    from a obtain i where i: "i < length (dense ss)" "dense ss ! i = e" "components ss ! i = a"
      unfolding linked_Get_Some [OF l] by blast
    from g' obtain j where j: "j < length (dense ss)" "dense ss ! j = e'" "components ss ! j = a'"
      unfolding linked_Get_Some [OF l] by blast
    have "i \<noteq> j" using i j o by auto
    moreover have "distinct (components ss)" using c by (simp add: cells_inv_def)
    ultimately have "a' \<noteq> a"
      using i j linked_comps [OF l] by (auto simp: nth_eq_iff_index_eq)
    with g' show ?thesis by (simp add: GetValue_def store_def load_def)
  qed
qed

lemma Emplace_spec:
  assumes l: "linked ss" and c: "cells_inv ss h"
    and e: "0 \<le> int_of_Goent e"
      "int_of_Goent e < len (sparse ss) \<or> int_of_Goent e < 2 ^ 45"
  shows "\<exists>ss' h'. Emplace ss e v h = Inr (ss', h') \<and> linked ss' \<and> cells_inv ss' h' \<and>
     set (dense ss') = insert e (set (dense ss)) \<and>
     GetValue ss' h' e = Inr (Some v) \<and>
     (\<forall>e'. e' \<noteq> e \<longrightarrow> GetValue ss' h' e' = GetValue ss h e')"
proof (cases "e \<in> set (dense ss)")
  case True
  let ?a = "components ss ! nat (sparse ss ! nat (int_of_Goent e))"
  have g: "Get ss e = Inr (Some ?a)" using True e(1) by (simp add: linked_Get [OF l])
  have "Emplace ss e v h = Inr (ss, store ?a v h)"
    using Emplace_result [OF l e] True by simp
  moreover have "cells_inv ss (store ?a v h)" by (rule cells_inv_store [OF c])
  moreover have "GetValue ss (store ?a v h) e = Inr (Some v)"
    using g by (simp add: GetValue_def store_def load_def)
  moreover have "\<forall>e'. e' \<noteq> e \<longrightarrow> GetValue ss (store ?a v h) e' = GetValue ss h e'"
    using GetValue_store_other [OF l c g] by blast
  ultimately show ?thesis using l True by (auto simp: insert_absorb)
next
  case False
  let ?ss = "appended ss e (fresh h)"
  let ?h = "snd (new_cell v h)"
  have "Emplace ss e v h = Inr (?ss, ?h)"
    using Emplace_result [OF l e] False by simp
  moreover have "linked ?ss" by (rule linked_appended [OF l e False])
  moreover have "cells_inv ?ss ?h" by (rule cells_inv_appended [OF c])
  moreover have "set (dense ?ss) = insert e (set (dense ss))" by (simp add: appended_def)
  moreover have "GetValue ?ss ?h e = Inr (Some v)"
    by (simp add: GetValue_def Get_appended_same [OF l e False] new_cell_def load_def)
  moreover have "GetValue ?ss ?h e' = GetValue ss h e'" if o: "e' \<noteq> e" for e'
  proof -
    have g: "Get ?ss e' = Get ss e'" by (rule Get_appended_other [OF l e False o])
    show ?thesis
    proof (cases "Get ss e'")
      case (Inl p)
      then show ?thesis by (simp add: GetValue_def g)
    next
      case (Inr r)
      show ?thesis
      proof (cases r)
        case None
        with Inr show ?thesis by (simp add: GetValue_def g)
      next
        case (Some a)
        with Inr have "a \<in> set (components ss)"
          using linked_Get_Some [OF l, of e' a] linked_comps [OF l] by (auto simp: in_set_conv_nth)
        then have "a \<noteq> fresh h" using c by (auto simp: cells_inv_def)
        with Inr Some show ?thesis by (simp add: GetValue_def g new_cell_def load_def)
      qed
    qed
  qed
  ultimately show ?thesis by blast
qed

lemma Remove_spec:
  assumes l: "linked ss" and e: "0 \<le> int_of_Goent e"
  shows "\<exists>ss'. Remove ss e = Inr ss' \<and> linked ss' \<and> (cells_inv ss h \<longrightarrow> cells_inv ss' h) \<and>
     set (dense ss') = set (dense ss) - {e} \<and>
     Get ss' e = Inr None \<and>
     (\<forall>e'. e' \<noteq> e \<longrightarrow> Get ss' e' = Get ss e')"
proof (cases "e \<in> set (dense ss)")
  case True
  have "Remove ss e = Inr (removed ss e)" by (rule Remove_present [OF l True])
  moreover have "linked (removed ss e)" by (rule linked_removed [OF l True])
  moreover have "cells_inv ss h \<longrightarrow> cells_inv (removed ss e) h"
    using cells_inv_removed [OF l True] by blast
  moreover have "set (dense (removed ss e)) = set (dense ss) - {e}"
    by (rule removed_dense_set [OF l True])
  moreover have "Get (removed ss e) e = Inr None" by (rule Get_removed_same [OF l True])
  moreover have "\<forall>e'. e' \<noteq> e \<longrightarrow> Get (removed ss e) e' = Get ss e'"
    using Get_removed_other [OF l True] by blast
  ultimately show ?thesis by blast
next
  case False
  then have g: "Get ss e = Inr None" using e by (simp add: linked_Get [OF l])
  have "Remove ss e = Inr ss" by (rule Remove_absent [OF g])
  with g l False show ?thesis by simp
qed

lemma Emplace_negative: "int_of_Goent e < 0 \<Longrightarrow> Emplace ss e v h = Inl IndexOutOfRange"
  by (simp add: Emplace_def Let_def slice_get_def len_def)

lemma int64_wrap: "int64 (2 ^ 63) = - (2 ^ 63)"
  by (simp add: int64_def signed_take_bit_eq_take_bit_minus take_bit_eq_mod)

lemma near_top_div_mod:
  assumes "2 ^ 63 - 255 \<le> n" "n < (2 ^ 63 :: int)"
  shows "n div 256 = 2 ^ 55 - 1" "n mod 256 \<noteq> 0"
proof -
  define r where "r = n - (2 ^ 63 - 256)"
  have r: "1 \<le> r" "r < 256" using assms by (simp_all add: r_def)
  define q :: int where "q = 2 ^ 55 - 1"
  have n: "n = r + q * 256" by (simp add: r_def q_def)
  have "(r + q * 256) div 256 = q + r div 256" by (rule div_mult_self1) simp
  then show "n div 256 = 2 ^ 55 - 1" using r unfolding n by (simp add: q_def)
  have "(r + q * 256) mod 256 = r mod 256" by (rule mod_mult_self1)
  then show "n mod 256 \<noteq> 0" using r unfolding n by simp
qed

lemma nextAlignedCapacity_overflow:
  assumes "2 ^ 63 - 256 \<le> k" "k < 2 ^ 63"
  shows "nextAlignedCapacity (int64 (k + 1)) = - (2 ^ 63)"
proof (cases "k = 2 ^ 63 - 1")
  case True
  then have "int64 (k + 1) = - (2 ^ 63)"
    using int64_wrap by simp
  then show ?thesis
    by (simp add: nextAlignedCapacity_def alignment_def signed_modulo_int_def)
next
  case False
  define n where "n = k + 1"
  have r: "2 ^ 63 - 255 \<le> n" "n < 2 ^ 63" using assms False by (simp_all add: n_def)
  then have w: "int64 n = n" by (intro int64_id) simp_all
  note dm = near_top_div_mod [OF r]
  have a: "int64 (2 ^ 55) = 2 ^ 55" by (intro int64_id) simp_all
  have p: "(2 ^ 55 :: int) * 256 = 2 ^ 63" by simp
  have n0: "0 \<le> n" using r by simp
  have "nextAlignedCapacity n = int64 (int64 (n div 256 + 1) * 256)"
    using dm(2) n0 by (simp add: nextAlignedCapacity_def alignment_def smod_nonneg sdiv_nonneg)
  also have "n div 256 + 1 = 2 ^ 55" using dm(1) by simp
  also have "int64 (int64 (2 ^ 55) * 256) = - (2 ^ 63)"
    unfolding a p by (rule int64_wrap)
  finally show ?thesis using w by (simp add: n_def)
qed

lemma Emplace_overflow:
  assumes "2 ^ 45 \<le> int_of_Goent e" "len (sparse ss) \<le> int_of_Goent e"
  shows "Emplace ss e v h = Inl MakeSliceLenOutOfRange"
proof -
  let ?n = "nextAlignedCapacity (int64 (int_of_Goent e + 1))"
  have "?n < 0 \<or> 8 * ?n > maxAlloc"
  proof (cases "int_of_Goent e < 2 ^ 63 - 256")
    case True
    then have w: "int64 (int_of_Goent e + 1) = int_of_Goent e + 1"
      using assms(1) by (intro int64_id) simp_all
    have "int_of_Goent e + 1 \<le> nextAlignedCapacity (int_of_Goent e + 1)"
      using nextAlignedCapacity_bounds [of "int_of_Goent e + 1"] True assms(1) by simp
    then show ?thesis unfolding w using assms(1) by (simp add: maxAlloc_def)
  next
    case False
    have "int_of_Goent e < 2 ^ 63" using int_of_Goent_range [of e] by simp
    from nextAlignedCapacity_overflow [OF _ this] False show ?thesis by simp
  qed
  then have "make_sparse ?n = Inl MakeSliceLenOutOfRange" by (auto simp: make_sparse_def)
  then show ?thesis using assms(2) by (simp add: Emplace_def Let_def)
qed

lemma Emplace_Inr_reach:
  assumes "Emplace ss e v h = Inr r"
  shows "0 \<le> int_of_Goent e \<and>
     (int_of_Goent e < len (sparse ss) \<or> int_of_Goent e < 2 ^ 45)"
proof -
  have "\<not> int_of_Goent e < 0"
    using assms Emplace_negative [of e ss v h] by auto
  moreover have "\<not> (2 ^ 45 \<le> int_of_Goent e \<and> len (sparse ss) \<le> int_of_Goent e)"
    using assms Emplace_overflow [of e ss v h] by auto
  ultimately show ?thesis by linarith
qed

lemma linked_Emplace:
  assumes l: "linked ss" and r: "Emplace ss e v h = Inr (ss', h')"
  shows "linked ss'"
proof -
  from Emplace_Inr_reach [OF r]
  have e: "0 \<le> int_of_Goent e"
    "int_of_Goent e < len (sparse ss) \<or> int_of_Goent e < 2 ^ 45" by simp_all
  show ?thesis
  proof (cases "e \<in> set (dense ss)")
    case True
    with r l show ?thesis by (simp add: Emplace_result [OF l e])
  next
    case False
    with r have "ss' = appended ss e (fresh h)" by (simp add: Emplace_result [OF l e])
    then show ?thesis using linked_appended [OF l e False] by simp
  qed
qed

lemma linked_Remove:
  assumes l: "linked ss" and r: "Remove ss e = Inr ss'"
  shows "linked ss'"
proof (cases "e \<in> set (dense ss)")
  case True
  with r have "ss' = removed ss e" by (simp add: Remove_present [OF l True])
  then show ?thesis using linked_removed [OF l True] by simp
next
  case False
  have "\<not> int_of_Goent e < 0"
    using r Remove_negative [of e ss] by auto
  then have "Get ss e = Inr None" using False by (simp add: linked_Get [OF l])
  from Remove_absent [OF this] r l show ?thesis by simp
qed

lemma Remove_last:
  assumes l: "linked ss" and n: "dense ss \<noteq> []"
  shows "Remove ss (last (dense ss)) =
     Inr \<lparr>dense = butlast (dense ss), components = butlast (components ss),
          sparse = (sparse ss)[nat (int_of_Goent (last (dense ss))) := invalidIndex]\<rparr>"
proof -
  from n obtain m where m: "length (dense ss) = Suc m" by (cases "dense ss") auto
  have la: "last (dense ss) = dense ss ! m" using n m by (simp add: last_conv_nth)
  have i: "m < length (dense ss)" "dense ss ! m = last (dense ss)" using m la by simp_all
  have mem: "last (dense ss) \<in> set (dense ss)" using n by simp
  have c: "length (components ss) = Suc m" using linked_comps [OF l] m by simp
  have d1: "take m (dense ss) = butlast (dense ss)"
    using m by (simp add: butlast_conv_take)
  have c1: "take m (components ss) = butlast (components ss)"
    using c by (simp add: butlast_conv_take)
  have "removed ss (last (dense ss)) =
     \<lparr>dense = butlast (dense ss), components = butlast (components ss),
      sparse = (sparse ss)[nat (int_of_Goent (last (dense ss))) := invalidIndex]\<rparr>"
    unfolding removed_eq [OF l i m] la [symmetric] by (simp add: d1 c1)
  then show ?thesis by (simp add: Remove_present [OF l mem])
qed

lemma int_less_2p63: "(n::nat) < 2 ^ 63 \<Longrightarrow> int n < 2 ^ 63"
  by simp

lemma int_ge_m2p63: "- (2 ^ 63) \<le> int n"
proof -
  have "(0::int) \<le> 2 ^ 63" by simp
  then show ?thesis by linarith
qed

lemma int_of_Goent_unat:
  assumes "unat e < 2 ^ 63"
  shows "int_of_Goent e = int (unat e)"
proof -
  have u: "uint e = int (unat e)" by (rule uint_nat)
  have b: "int (unat e) < 2 ^ 63" by (rule int_less_2p63 [OF assms])
  have c: "- (2 ^ 63) \<le> int (unat e)" by (rule int_ge_m2p63)
  have "sint e = signed_take_bit (LENGTH(64) - Suc 0) (uint e)" by (rule sint_uint)
  also have "\<dots> = signed_take_bit 63 (int (unat e))" unfolding u by simp
  also have "\<dots> = int (unat e)"
    by (rule signed_take_bit_int_eq_self [OF c b])
  finally show ?thesis by (simp add: int_of_Goent_def)
qed

lemma int_of_Goent_of_nat:
  assumes "n < 2 ^ 63"
  shows "int_of_Goent (of_nat n) = int n"
proof -
  have b: "int n < 2 ^ 63" by (rule int_less_2p63 [OF assms])
  have "sint (of_nat n :: 64 word) = signed_take_bit (LENGTH(64) - Suc 0) (int n)"
    using signed_of_nat [of n, where ?'a = int and ?'b = 64] by simp
  also have "\<dots> = int n"
    using signed_take_bit_int_eq_self [OF int_ge_m2p63 b] by simp
  finally show ?thesis by (simp add: int_of_Goent_def)
qed

lemma GetValue_Emplace_same:
  assumes l: "linked ss" and e: "0 \<le> int_of_Goent e"
    "int_of_Goent e < len (sparse ss) \<or> int_of_Goent e < 2 ^ 45"
  shows "\<exists>ss' h' a. Emplace ss e v h = Inr (ss', h') \<and> Get ss' e = Inr (Some a) \<and> load h' a = v"
proof (cases "e \<in> set (dense ss)")
  case True
  let ?a = "components ss ! nat (sparse ss ! nat (int_of_Goent e))"
  have "Get ss e = Inr (Some ?a)" using True e(1) by (simp add: linked_Get [OF l])
  moreover have "Emplace ss e v h = Inr (ss, store ?a v h)"
    using True by (simp add: Emplace_result [OF l e])
  moreover have "load (store ?a v h) ?a = v" by (simp add: store_def load_def)
  ultimately show ?thesis by blast
next
  case False
  have "Emplace ss e v h = Inr (appended ss e (fresh h), snd (new_cell v h))"
    using False by (simp add: Emplace_result [OF l e])
  moreover have "Get (appended ss e (fresh h)) e = Inr (Some (fresh h))"
    by (rule Get_appended_same [OF l e False])
  moreover have "load (snd (new_cell v h)) (fresh h) = v" by (simp add: new_cell_def load_def)
  ultimately show ?thesis by blast
qed

lemma Emplace_sparse_length:
  assumes l: "linked ss" and e: "0 \<le> int_of_Goent e"
    "int_of_Goent e < len (sparse ss) \<or> int_of_Goent e < 2 ^ 45"
    and r: "Emplace ss e v h = Inr (ss', h')"
  shows "sparse ss' = (if e \<in> set (dense ss) then sparse ss
      else (grown (sparse ss) e)[nat (int_of_Goent e) := len (dense ss)])"
  using r by (auto simp: Emplace_result [OF l e] appended_def split: if_splits)

lemma grown_len:
  "len (grown sp e) =
     (if len sp \<le> int_of_Goent e then max (len sp) (nextAlignedCapacity (int_of_Goent e + 1)) else len sp)"
  by (auto simp: grown_def len_def)

lemma int_less_limit: "(n::nat) < 2 ^ 45 \<Longrightarrow> int n < 2 ^ 45"
  by simp


lemma linked_slot_of:
  assumes "linked ss"
  shows "slot_of ss e =
     (if e \<in> set (dense ss) then Some (components ss ! nat (sparse ss ! nat (int_of_Goent e)))
      else None)"
  using linked_mem_dense [OF assms, of e]
  by (auto simp: slot_of_def linked_Get [OF assms])

lemma linked_slot_of_nth:
  assumes l: "linked ss" and i: "i < length (dense ss)"
  shows "slot_of ss (dense ss ! i) = Some (components ss ! i)"
proof -
  have "Get ss (dense ss ! i) = Inr (Some (components ss ! i))"
    unfolding linked_Get_Some [OF l] using i by blast
  then show ?thesis by (simp add: slot_of_def)
qed

lemma SparseSet_inv_iff:
  "SparseSet_inv ss owner \<longleftrightarrow>
     linked ss \<and> distinct (components ss) \<and> owner = slot_of ss"
proof
  assume inv: "SparseSet_inv ss owner"
  then have "index_inv ss" by (simp add: SparseSet_inv_def index_inv_def)
  then have l: "linked ss" by (simp add: index_inv_linked)
  have d: "distinct (components ss)" using inv by (simp add: SparseSet_inv_def)
  have a: "owner (dense ss ! i) = Some (components ss ! i)" if "i < length (dense ss)" for i
    using inv that by (simp add: SparseSet_inv_def)
  have n: "owner e = None" if "e \<notin> set (dense ss)" for e
    using inv that by (simp add: SparseSet_inv_def)
  have "owner e = slot_of ss e" for e
  proof (cases "e \<in> set (dense ss)")
    case True
    then obtain i where i: "i < length (dense ss)" "dense ss ! i = e"
      by (auto simp: in_set_conv_nth)
    then show ?thesis using a [OF i(1)] linked_slot_of_nth [OF l i(1)] by simp
  next
    case False
    then show ?thesis using n by (simp add: linked_slot_of [OF l])
  qed
  then have "owner = slot_of ss" by (rule ext)
  with l d show "linked ss \<and> distinct (components ss) \<and> owner = slot_of ss" by simp
next
  assume r: "linked ss \<and> distinct (components ss) \<and> owner = slot_of ss"
  then have l: "linked ss" and d: "distinct (components ss)" and o: "owner = slot_of ss"
    by simp_all
  have "index_inv ss" using l by (simp add: index_inv_linked)
  moreover have "\<forall>i<length (dense ss). owner (dense ss ! i) = Some (components ss ! i)"
    unfolding o using linked_slot_of_nth [OF l] by blast
  moreover have "\<forall>e. e \<notin> set (dense ss) \<longrightarrow> owner e = None"
    unfolding o by (simp add: linked_slot_of [OF l])
  ultimately show "SparseSet_inv ss owner"
    using d by (simp add: SparseSet_inv_def index_inv_def)
qed

lemma slot_of_Get:
  assumes "Get ss e = Inr g"
  shows "slot_of ss e = g"
  using assms by (simp add: slot_of_def)

lemma slot_of_eq_Get:
  assumes "Get ss' e = Get ss e"
  shows "slot_of ss' e = slot_of ss e"
  using assms by (simp add: slot_of_def)

lemma slot_of_appended:
  assumes l: "linked ss" and e: "0 \<le> int_of_Goent e"
    "int_of_Goent e < len (sparse ss) \<or> int_of_Goent e < 2 ^ 45"
    and n: "e \<notin> set (dense ss)"
  shows "slot_of (appended ss e a) = (slot_of ss)(e \<mapsto> a)"
proof (rule ext)
  fix e'
  show "slot_of (appended ss e a) e' = ((slot_of ss)(e \<mapsto> a)) e'"
  proof (cases "e' = e")
    case True
    then show ?thesis by (simp add: slot_of_def Get_appended_same [OF l e n])
  next
    case False
    then show ?thesis by (simp add: slot_of_def Get_appended_other [OF l e n False])
  qed
qed

lemma slot_of_removed:
  assumes l: "linked ss" and m: "e \<in> set (dense ss)"
  shows "slot_of (removed ss e) = (slot_of ss)(e := None)"
proof (rule ext)
  fix e'
  show "slot_of (removed ss e) e' = ((slot_of ss)(e := None)) e'"
  proof (cases "e' = e")
    case True
    then show ?thesis by (simp add: slot_of_def Get_removed_same [OF l m])
  next
    case False
    then show ?thesis by (simp add: slot_of_def Get_removed_other [OF l m False])
  qed
qed

lemma Emplace_inv:
  assumes inv: "SparseSet_inv ss owner" and c: "cells_inv ss h"
    and r: "Emplace ss e v h = Inr (ss', h')"
  shows "\<exists>a. SparseSet_inv ss' (owner(e \<mapsto> a)) \<and> cells_inv ss' h' \<and>
     (owner e = Some a \<and> fresh h' = fresh h \<or>
      owner e = None \<and> a = fresh h \<and> fresh h' = Suc (fresh h)) \<and>
     load h' a = v \<and> (\<forall>b. b \<noteq> a \<longrightarrow> load h' b = load h b)"
proof -
  from inv have l: "linked ss" and o: "owner = slot_of ss"
    by (simp_all add: SparseSet_inv_iff)
  from Emplace_Inr_reach [OF r]
  have e: "0 \<le> int_of_Goent e" "int_of_Goent e < len (sparse ss) \<or> int_of_Goent e < 2 ^ 45"
    by simp_all
  show ?thesis
  proof (cases "e \<in> set (dense ss)")
    case True
    let ?a = "components ss ! nat (sparse ss ! nat (int_of_Goent e))"
    have E: "Emplace ss e v h = Inr (ss, store ?a v h)"
      using True by (simp add: Emplace_result [OF l e])
    have "ss' = ss \<and> h' = store ?a v h" using r unfolding E by auto
    note s = this [THEN conjunct1] this [THEN conjunct2]
    have oe: "owner e = Some ?a" unfolding o using True by (simp add: linked_slot_of [OF l])
    then have "owner(e \<mapsto> ?a) = owner" by (simp add: fun_upd_idem)
    then have 1: "SparseSet_inv ss' (owner(e \<mapsto> ?a))" using inv s(1) by simp
    have 2: "cells_inv ss' h'" unfolding s by (rule cells_inv_store [OF c])
    have 3: "load h' ?a = v" "fresh h' = fresh h" "\<forall>b. b \<noteq> ?a \<longrightarrow> load h' b = load h b"
      unfolding s by (simp_all add: store_def load_def)
    from 1 2 3 oe show ?thesis by blast
  next
    case False
    let ?a = "fresh h"
    have E: "Emplace ss e v h = Inr (appended ss e ?a, snd (new_cell v h))"
      using False by (simp add: Emplace_result [OF l e])
    have "ss' = appended ss e ?a \<and> h' = snd (new_cell v h)" using r unfolding E by auto
    note s = this [THEN conjunct1] this [THEN conjunct2]
    have oe: "owner e = None" unfolding o using False by (simp add: linked_slot_of [OF l])
    have 2: "cells_inv ss' h'" unfolding s by (rule cells_inv_appended [OF c])
    then have "distinct (components ss')" by (simp add: cells_inv_def)
    moreover have "linked ss'" unfolding s by (rule linked_appended [OF l e False])
    moreover have "slot_of ss' = owner(e \<mapsto> ?a)"
      unfolding s o by (rule slot_of_appended [OF l e False])
    ultimately have 1: "SparseSet_inv ss' (owner(e \<mapsto> ?a))" by (simp add: SparseSet_inv_iff)
    have 3: "load h' ?a = v" "fresh h' = Suc (fresh h)" "\<forall>b. b \<noteq> ?a \<longrightarrow> load h' b = load h b"
      unfolding s by (simp_all add: new_cell_def load_def)
    from 1 2 3 oe show ?thesis by blast
  qed
qed

lemma Remove_inv:
  assumes inv: "SparseSet_inv ss owner" and c: "cells_inv ss h"
    and r: "Remove ss e = Inr ss'"
  shows "SparseSet_inv ss' (owner(e := None)) \<and> cells_inv ss' h"
proof -
  from inv have l: "linked ss" and o: "owner = slot_of ss"
    by (simp_all add: SparseSet_inv_iff)
  show ?thesis
  proof (cases "e \<in> set (dense ss)")
    case True
    have s: "ss' = removed ss e" using r by (simp add: Remove_present [OF l True])
    have 2: "cells_inv ss' h" unfolding s by (rule cells_inv_removed [OF l True c])
    then have "distinct (components ss')" by (simp add: cells_inv_def)
    moreover have "linked ss'" unfolding s by (rule linked_removed [OF l True])
    moreover have "slot_of ss' = owner(e := None)"
      unfolding s o by (rule slot_of_removed [OF l True])
    ultimately show ?thesis using 2 by (simp add: SparseSet_inv_iff)
  next
    case False
    have "\<not> int_of_Goent e < 0" using r Remove_negative [of e ss] by auto
    then have g: "Get ss e = Inr None" using False by (simp add: linked_Get [OF l])
    have s: "ss' = ss" using r Remove_absent [OF g] by simp
    have "owner e = None" unfolding o using False by (simp add: linked_slot_of [OF l])
    then have "owner(e := None) = owner" by (simp add: fun_upd_idem)
    then show ?thesis using inv c s by simp
  qed
qed

lemma Get_inv:
  assumes inv: "SparseSet_inv ss owner" and g: "Get ss e = Inr g"
  shows "g = owner e"
  using inv g by (simp add: SparseSet_inv_iff slot_of_def)

lemma nat_less_2p63: "int n < 2 ^ 63 \<Longrightarrow> n < 2 ^ 63"
  by simp

lemma int_of_Goent_negative:
  assumes "2 ^ 63 \<le> unat e"
  shows "int_of_Goent e < 0"
proof (rule ccontr)
  assume "\<not> int_of_Goent e < 0"
  then have n: "0 \<le> sint e" by (simp add: int_of_Goent_def)
  have b: "sint e < 2 ^ 63" using sint_lt [of e] by simp
  have c: "sint e < 2 ^ 64"
  proof -
    have "(2::int) ^ 63 \<le> 2 ^ 64" by simp
    with b show ?thesis by (rule less_le_trans)
  qed
  have L: "LENGTH(64) = 64" by simp
  have u: "int (unat e) = uint e" by (rule uint_nat [symmetric])
  have t: "uint e = take_bit LENGTH(64) (sint e)" by (rule uint_sint)
  have s: "take_bit 64 (sint e) = sint e" by (rule take_bit_int_eq_self [OF n c])
  have "int (unat e) = sint e" unfolding u t L by (rule s)
  with b have "int (unat e) < 2 ^ 63" by (simp only:)
  then have "unat e < 2 ^ 63" by (rule nat_less_2p63)
  with assms show False by linarith
qed

lemma SparseSet_inv_NewSparseSet: "SparseSet_inv NewSparseSet Map.empty"
proof -
  have d: "dense NewSparseSet = []" by (simp add: NewSparseSet_def)
  have "slot_of NewSparseSet = Map.empty"
    by (rule ext) (simp add: linked_slot_of [OF linked_NewSparseSet] d)
  moreover have "distinct (components NewSparseSet)" by (simp add: NewSparseSet_def)
  ultimately show ?thesis
    using linked_NewSparseSet by (simp add: SparseSet_inv_iff)
qed

lemma cells_inv_NewSparseSet: "cells_inv NewSparseSet h"
  by (simp add: cells_inv_def NewSparseSet_def)

lemma int_ge_2p45: "(2::nat) ^ 45 \<le> n \<Longrightarrow> (2::int) ^ 45 \<le> int n"
  by simp





lemma Emplace_grow_frame:
  assumes l: "linked ss" and c: "cells_inv ss h"
    and e: "len (sparse ss) \<le> int_of_Goent e" "int_of_Goent e < 2 ^ 45"
  shows "\<exists>ss' h'. Emplace ss e v h = Inr (ss', h') \<and>
     length (sparse ss) < length (sparse ss') \<and>
     take (length (sparse ss)) (sparse ss') = sparse ss \<and>
     dense ss' = dense ss @ [e] \<and>
     components ss' = components ss @ [fresh h] \<and>
     (\<forall>a\<in>set (components ss). load h' a = load h a) \<and>
     load h' (fresh h) = v"
proof -
  have e0: "0 \<le> int_of_Goent e" using e(1) by (simp add: len_def)
  have e': "int_of_Goent e < len (sparse ss) \<or> int_of_Goent e < 2 ^ 45" using e(2) by simp
  have nd: "e \<notin> set (dense ss)" using e(1) linked_mem_dense [OF l, of e] by simp
  let ?g = "grown (sparse ss) e"
  let ?k = "nat (int_of_Goent e)"
  have r: "Emplace ss e v h = Inr (appended ss e (fresh h), snd (new_cell v h))"
    using nd by (simp add: Emplace_result [OF l e0 e'])
  have k: "length (sparse ss) \<le> ?k" using e(1) e0 by (simp add: len_def le_nat_iff)
  have gl: "int_of_Goent e < len ?g" by (rule grown_length(1) [OF e0 e'])
  then have "?k < length ?g" using e0 by (simp add: len_def nat_less_iff)
  with k have 1: "length (sparse ss) < length (?g[?k := len (dense ss)])" by simp
  have "take (length (sparse ss)) (?g[?k := len (dense ss)]) = take (length (sparse ss)) ?g"
    using k by simp
  also have "\<dots> = sparse ss" using e(1) by (simp add: grown_def)
  finally have 2: "take (length (sparse ss)) (?g[?k := len (dense ss)]) = sparse ss" .
  have 3: "\<forall>a\<in>set (components ss). load (snd (new_cell v h)) a = load h a"
    using c by (auto simp: cells_inv_def new_cell_def load_def)
  have 4: "load (snd (new_cell v h)) (fresh h) = v" by (simp add: new_cell_def load_def)
  show ?thesis
    using r 1 2 3 4
    by (intro exI [of _ "appended ss e (fresh h)"] exI [of _ "snd (new_cell v h)"])
      (simp add: appended_def)
qed

lemma emplace_all_append:
  "emplace_all (xs @ ys) ss h =
     (case emplace_all xs ss h of Inl p \<Rightarrow> Inl p | Inr (s, h') \<Rightarrow> emplace_all ys s h')"
  by (induction xs arbitrary: ss h) (auto split: sum.splits)

lemma nextAlignedCapacity_257: "nextAlignedCapacity 257 = 512"
  by (simp add: nextAlignedCapacity_def alignment_def int64_def
      signed_modulo_int_def signed_divide_int_def)

lemma emplace_range:
  assumes "n \<le> 512"
  shows "\<exists>ss' h'. emplace_all (map (\<lambda>i. (word_of_nat i, val i)) [0..<n]) NewSparseSet h =
        Inr (ss', h') \<and>
     linked ss' \<and> cells_inv ss' h' \<and> dense ss' = map word_of_nat [0..<n] \<and>
     len (sparse ss') = (if n \<le> 256 then 256 else 512) \<and>
     (\<forall>i<n. GetValue ss' h' (word_of_nat i) = Inr (Some (val i)))"
  using assms
proof (induction n)
  case 0
  show ?case
    using linked_NewSparseSet cells_inv_NewSparseSet [of h]
    by (simp add: NewSparseSet_def len_def alignment_def)
next
  case (Suc n)
  then have n: "n < 512" by simp
  from Suc.IH obtain s1 h1 where
    r1: "emplace_all (map (\<lambda>i. (word_of_nat i, val i)) [0..<n]) NewSparseSet h = Inr (s1, h1)"
    and l1: "linked s1" and c1: "cells_inv s1 h1"
    and d1: "dense s1 = map word_of_nat [0..<n]"
    and p1: "len (sparse s1) = (if n \<le> 256 then 256 else 512)"
    and g1: "\<forall>i<n. GetValue s1 h1 (word_of_nat i) = Inr (Some (val i))"
    using n by auto
  let ?e = "word_of_nat n :: Goent"
  have b: "m < 2 ^ 63" if "m \<le> n" for m :: nat
  proof -
    have "(512::nat) \<le> 2 ^ 63" by simp
    with that n show ?thesis by linarith
  qed
  have E: "int_of_Goent (word_of_nat m) = int m" if "m \<le> n" for m
    by (rule int_of_Goent_of_nat [OF b [OF that]])
  have e: "0 \<le> int_of_Goent ?e" "int_of_Goent ?e < 2 ^ 45"
    using n by (simp_all add: E)
  then have e': "int_of_Goent ?e < len (sparse s1) \<or> int_of_Goent ?e < 2 ^ 45" by simp
  have ne: "(word_of_nat i :: Goent) \<noteq> ?e" if "i < n" for i
  proof
    assume "(word_of_nat i :: Goent) = ?e"
    then have "int_of_Goent (word_of_nat i) = int_of_Goent ?e" by simp
    then show False using that by (simp add: E)
  qed
  have nd: "?e \<notin> set (dense s1)"
  proof
    assume "?e \<in> set (dense s1)"
    then obtain i where "i < n" "(word_of_nat i :: Goent) = ?e" unfolding d1 by auto
    then show False using ne [of i] by simp
  qed
  from Emplace_spec [OF l1 c1 e(1) e', of "val n"]
  obtain s2 h2 where r2: "Emplace s1 ?e (val n) h1 = Inr (s2, h2)"
    and l2: "linked s2" and c2: "cells_inv s2 h2"
    and g2: "GetValue s2 h2 ?e = Inr (Some (val n))"
    and o2: "\<forall>e'. e' \<noteq> ?e \<longrightarrow> GetValue s2 h2 e' = GetValue s1 h1 e'"
    by blast
  have "Emplace s1 ?e (val n) h1 = Inr (appended s1 ?e (fresh h1), snd (new_cell (val n) h1))"
    using nd by (simp add: Emplace_result [OF l1 e(1) e'])
  with r2 have s2: "s2 = appended s1 ?e (fresh h1)" by simp
  have d2: "dense s2 = map word_of_nat [0..<Suc n]" by (simp add: s2 appended_def d1)
  have "len (sparse s2) = len (grown (sparse s1) ?e)" by (simp add: s2 appended_def len_def)
  also have "\<dots> = (if Suc n \<le> 256 then 256 else 512)"
    using p1 n by (auto simp: grown_len E nextAlignedCapacity_257)
  finally have p2: "len (sparse s2) = (if Suc n \<le> 256 then 256 else 512)" .
  have g: "GetValue s2 h2 (word_of_nat i) = Inr (Some (val i))" if "i < Suc n" for i
  proof (cases "i = n")
    case True
    then show ?thesis using g2 by simp
  next
    case False
    then have "i < n" using that by simp
    then show ?thesis using o2 ne g1 by simp
  qed
  have "emplace_all (map (\<lambda>i. (word_of_nat i, val i)) [0..<Suc n]) NewSparseSet h = Inr (s2, h2)"
    using r1 r2 by (simp add: emplace_all_append)
  with l2 c2 d2 p2 g show ?case by blast
qed

section \<open>The claims\<close>

text \<open>
  C10. For every entity that already holds a component (\<open>Get\<close> finds the slot \<open>a\<close>), a
  repeated \<open>Emplace\<close> succeeds, writes the new value through that same slot and takes no new
  cell; afterwards \<open>Get\<close> still answers the slot \<open>a\<close>, every other cell is unchanged, and
  \<open>dense\<close>, \<open>components\<close> and \<open>sparse\<close> are the lists they were, so their lengths are
  unchanged and \<open>dense\<close> gained no entry.
\<close>

theorem Emplace_existing_overwrites_in_place:
  assumes "Get ss entity = Inr (Some a)"
  shows "\<exists>ss' h'. Emplace ss entity v h = Inr (ss', h') \<and>
     Get ss' entity = Inr (Some a) \<and> load h' a = v \<and> fresh h' = fresh h \<and>
     (\<forall>b. b \<noteq> a \<longrightarrow> load h' b = load h b) \<and>
     dense ss' = dense ss \<and> components ss' = components ss \<and> sparse ss' = sparse ss \<and>
     length (dense ss') = length (dense ss) \<and>
     length (components ss') = length (components ss) \<and>
     length (sparse ss') = length (sparse ss)"
proof -
  have "Emplace ss entity v h = Inr (ss, store a v h)"
    by (rule Emplace_overwrite [OF assms])
  moreover have "load (store a v h) a = v" "fresh (store a v h) = fresh h"
    "\<forall>b. b \<noteq> a \<longrightarrow> load (store a v h) b = load h b"
    by (simp_all add: store_def load_def)
  ultimately show ?thesis using assms by simp
qed

theorem Emplace_existing_overwrites_in_place_witness:
  "Get (appended NewSparseSet 5 0) 5 = Inr (Some 0) \<and>
   (\<exists>ss' h'. Emplace (appended NewSparseSet 5 0) 5 (2::nat) (heap0 1) = Inr (ss', h') \<and>
      Get ss' 5 = Inr (Some 0) \<and> load h' 0 = 2 \<and> fresh h' = 0 \<and>
      dense ss' = [5] \<and> components ss' = [0])"
proof -
  have g: "Get (appended NewSparseSet 5 0) 5 = Inr (Some 0)"
    by (rule Get_appended_same [OF linked_NewSparseSet])
      (simp_all add: int_of_Goent_def NewSparseSet_def)
  have d: "dense (appended NewSparseSet 5 0) = [5]" "components (appended NewSparseSet 5 0) = [0]"
    by (simp_all add: appended_def NewSparseSet_def)
  from Emplace_existing_overwrites_in_place [OF g, of "2::nat" "heap0 1"] g d
  show ?thesis by (auto simp: heap0_def)
qed

text \<open>
  C4. Every operation preserves the structural invariant \<open>SparseSet_inv\<close>, stated against
  the association \<open>owner\<close> of entities to component cells:
  \<^item> an \<open>Emplace\<close> that returns leaves a sparse set that satisfies the invariant for
    \<open>owner\<close> updated at the entity alone, to the cell \<open>a\<close> that now holds the value: the
    cell the entity had, or a fresh one when it had none; every other cell is unchanged;
  \<^item> a \<open>Remove\<close> that returns leaves a sparse set that satisfies the invariant for
    \<open>owner\<close> with the entity removed, so every remaining entity keeps its own cell and
    its recorded position is its index; \<open>Remove\<close> does return for every entity whose
    \<^verbatim>\<open>int\<close> conversion is not negative;
  \<^item> \<open>Get\<close> only reads, and what it returns is \<open>owner\<close> of the entity;
  \<^item> in particular a \<open>Remove\<close> of the entity currently last in \<open>dense\<close> returns, keeps
    the invariant and drops exactly the last position of \<open>dense\<close> and \<open>components\<close>.
\<close>

theorem SparseSet_operations_preserve_invariant:
  assumes "SparseSet_inv ss owner" and "cells_inv ss h"
  shows "(Emplace ss entity v h = Inr (ss', h') \<longrightarrow>
        (\<exists>a. SparseSet_inv ss' (owner(entity \<mapsto> a)) \<and> cells_inv ss' h' \<and>
           (owner entity = Some a \<and> fresh h' = fresh h \<or>
            owner entity = None \<and> a = fresh h \<and> fresh h' = Suc (fresh h)) \<and>
           load h' a = v \<and> (\<forall>b. b \<noteq> a \<longrightarrow> load h' b = load h b))) \<and>
     (Remove ss entity = Inr ss'' \<longrightarrow>
        SparseSet_inv ss'' (owner(entity := None)) \<and> cells_inv ss'' h) \<and>
     (Get ss entity = Inr g \<longrightarrow> g = owner entity) \<and>
     (0 \<le> int_of_Goent entity \<longrightarrow>
        (\<exists>s. Remove ss entity = Inr s) \<and> Get ss entity = Inr (owner entity)) \<and>
     (dense ss \<noteq> [] \<longrightarrow>
        (\<exists>s. Remove ss (last (dense ss)) = Inr s \<and>
           SparseSet_inv s (owner(last (dense ss) := None)) \<and>
           dense s = butlast (dense ss) \<and> components s = butlast (components ss)))"
proof -
  have l: "linked ss" and o: "owner = slot_of ss"
    using assms(1) by (simp_all add: SparseSet_inv_iff)
  have 1: "Emplace ss entity v h = Inr (ss', h') \<longrightarrow>
        (\<exists>a. SparseSet_inv ss' (owner(entity \<mapsto> a)) \<and> cells_inv ss' h' \<and>
           (owner entity = Some a \<and> fresh h' = fresh h \<or>
            owner entity = None \<and> a = fresh h \<and> fresh h' = Suc (fresh h)) \<and>
           load h' a = v \<and> (\<forall>b. b \<noteq> a \<longrightarrow> load h' b = load h b))"
    using Emplace_inv [OF assms] by blast
  have 2: "Remove ss entity = Inr ss'' \<longrightarrow>
        SparseSet_inv ss'' (owner(entity := None)) \<and> cells_inv ss'' h"
    using Remove_inv [OF assms] by blast
  have 3: "Get ss entity = Inr g \<longrightarrow> g = owner entity"
    using Get_inv [OF assms(1)] by blast
  have 4: "0 \<le> int_of_Goent entity \<longrightarrow>
        (\<exists>s. Remove ss entity = Inr s) \<and> Get ss entity = Inr (owner entity)"
  proof
    assume e: "0 \<le> int_of_Goent entity"
    from Remove_spec [OF l e, of h] have "\<exists>s. Remove ss entity = Inr s" by blast
    moreover have "Get ss entity = Inr (owner entity)"
      unfolding o using e by (simp add: linked_Get [OF l] linked_slot_of [OF l])
    ultimately show "(\<exists>s. Remove ss entity = Inr s) \<and> Get ss entity = Inr (owner entity)" ..
  qed
  have 5: "dense ss \<noteq> [] \<longrightarrow>
        (\<exists>s. Remove ss (last (dense ss)) = Inr s \<and>
           SparseSet_inv s (owner(last (dense ss) := None)) \<and>
           dense s = butlast (dense ss) \<and> components s = butlast (components ss))"
  proof
    assume n: "dense ss \<noteq> []"
    let ?s = "\<lparr>dense = butlast (dense ss), components = butlast (components ss),
          sparse = (sparse ss)[nat (int_of_Goent (last (dense ss))) := invalidIndex]\<rparr>"
    have r: "Remove ss (last (dense ss)) = Inr ?s" by (rule Remove_last [OF l n])
    from Remove_inv [OF assms r] have "SparseSet_inv ?s (owner(last (dense ss) := None))" ..
    with r show "\<exists>s. Remove ss (last (dense ss)) = Inr s \<and>
           SparseSet_inv s (owner(last (dense ss) := None)) \<and>
           dense s = butlast (dense ss) \<and> components s = butlast (components ss)"
      by (intro exI [of _ ?s]) simp
  qed
  show ?thesis by (intro conjI 1 2 3 4 5)
qed

theorem SparseSet_operations_preserve_invariant_witness:
  "\<exists>s1 h1 s2 h2 s3 h3 s4.
     Emplace NewSparseSet 3 (30::nat) (heap0 0) = Inr (s1, h1) \<and>
     Emplace s1 5 50 h1 = Inr (s2, h2) \<and>
     Emplace s2 7 70 h2 = Inr (s3, h3) \<and>
     dense s3 = [3, 5, 7] \<and> components s3 = [0, 1, 2] \<and>
     SparseSet_inv s3 [3 \<mapsto> 0, 5 \<mapsto> 1, 7 \<mapsto> 2] \<and>
     Remove s3 3 = Inr s4 \<and>
     dense s4 = [7, 5] \<and> components s4 = [2, 1] \<and>
     SparseSet_inv s4 [5 \<mapsto> 1, 7 \<mapsto> 2] \<and>
     Get s4 7 = Inr (Some 2) \<and> Get s4 5 = Inr (Some 1) \<and> Get s4 3 = Inr None"
proof -
  let ?h0 = "heap0 (0::nat)"
  let ?s1 = "appended NewSparseSet 3 0"
  let ?h1 = "snd (new_cell 30 ?h0)"
  let ?s2 = "appended ?s1 5 1"
  let ?h2 = "snd (new_cell 50 ?h1)"
  let ?s3 = "appended ?s2 7 2"
  let ?h3 = "snd (new_cell 70 ?h2)"
  let ?s4 = "removed ?s3 3"
  have f: "fresh ?h0 = 0" "fresh ?h1 = 1" "fresh ?h2 = 2"
    by (simp_all add: heap0_def new_cell_def)
  have l0: "linked NewSparseSet" by (rule linked_NewSparseSet)
  have l1: "linked ?s1"
    by (rule linked_appended [OF l0]) (simp_all add: int_of_Goent_def NewSparseSet_def)
  have l2: "linked ?s2"
    by (rule linked_appended [OF l1]) (simp_all add: int_of_Goent_def appended_def NewSparseSet_def)
  have l3: "linked ?s3"
    by (rule linked_appended [OF l2]) (simp_all add: int_of_Goent_def appended_def NewSparseSet_def)
  have e1: "Emplace NewSparseSet 3 30 ?h0 = Inr (?s1, ?h1)"
    using Emplace_result [OF l0, of 3 30 ?h0]
    by (simp add: int_of_Goent_def NewSparseSet_def f)
  have e2: "Emplace ?s1 5 50 ?h1 = Inr (?s2, ?h2)"
    using Emplace_result [OF l1, of 5 50 ?h1]
    by (simp add: int_of_Goent_def appended_def NewSparseSet_def f)
  have e3: "Emplace ?s2 7 70 ?h2 = Inr (?s3, ?h3)"
    using Emplace_result [OF l2, of 7 70 ?h2]
    by (simp add: int_of_Goent_def appended_def NewSparseSet_def f)
  have d3: "dense ?s3 = [3, 5, 7]" "components ?s3 = [0, 1, 2]"
    by (simp_all add: appended_def NewSparseSet_def)
  have r: "Remove ?s3 3 = Inr ?s4"
    by (rule Remove_present [OF l3]) (use d3 in simp)
  have sp: "sparse ?s3 ! 3 = 0"
    by (simp add: appended_def NewSparseSet_def grown_def len_def int_of_Goent_def alignment_def)
  have d4: "dense ?s4 = [7, 5]" "components ?s4 = [2, 1]"
    using d3 sp by (simp_all add: removed_def Let_def int_of_Goent_def)
  note t0 = SparseSet_operations_preserve_invariant
    [OF SparseSet_inv_NewSparseSet cells_inv_NewSparseSet, of 3 30 ?h0 ?s1 ?h1 ?s1 None]
  from t0 e1 f have i1: "SparseSet_inv ?s1 [3 \<mapsto> 0]" and c1: "cells_inv ?s1 ?h1"
    by auto
  note t1 = SparseSet_operations_preserve_invariant [OF i1 c1, of 5 50 ?s2 ?h2 ?s2 None]
  from t1 e2 f have i2: "SparseSet_inv ?s2 [3 \<mapsto> 0, 5 \<mapsto> 1]" and c2: "cells_inv ?s2 ?h2"
    by auto
  note t2 = SparseSet_operations_preserve_invariant [OF i2 c2, of 7 70 ?s3 ?h3 ?s3 None]
  from t2 e3 f have i3: "SparseSet_inv ?s3 [3 \<mapsto> 0, 5 \<mapsto> 1, 7 \<mapsto> 2]" and c3: "cells_inv ?s3 ?h3"
    by auto
  note t3 = SparseSet_operations_preserve_invariant [OF i3 c3, of 3 30 ?s3 ?h3 ?s4 None]
  from t3 r have "SparseSet_inv ?s4 ([3 \<mapsto> 0, 5 \<mapsto> 1, 7 \<mapsto> 2](3 := None))" by simp
  moreover have "[3 \<mapsto> 0, 5 \<mapsto> 1, 7 \<mapsto> 2](3 := None) = ([5 \<mapsto> 1, 7 \<mapsto> 2] :: Goent \<Rightarrow> addr option)"
    by (rule ext) simp
  ultimately have i4: "SparseSet_inv ?s4 [5 \<mapsto> 1, 7 \<mapsto> 2]" by simp
  have c4: "cells_inv ?s4 ?h3" using t3 r by simp
  note t4 = SparseSet_operations_preserve_invariant [OF i4 c4, where h' = ?h3 and ss' = ?s4 and ss'' = ?s4 and v = 0 and g = None]
  have g: "Get ?s4 7 = Inr (Some 2)" "Get ?s4 5 = Inr (Some 1)" "Get ?s4 3 = Inr None"
    using t4 [of 7] t4 [of 5] t4 [of 3] by (simp_all add: int_of_Goent_def)
  from e1 e2 e3 d3 i3 r d4 i4 g show ?thesis by blast
qed

text \<open>
  C6, as stated, fails: \<^verbatim>\<open>int(entity)\<close> of the handle \<open>2^63\<close> is negative, the capacity
  test lets it pass and the index into \<open>sparse\<close> panics.
\<close>

theorem Emplace_handle_2_63_panics:
  "Emplace NewSparseSet (2 ^ 63) (1::nat) (heap0 0) = Inl IndexOutOfRange"
  by (rule Emplace_negative) (simp add: int_of_Goent_def)

text \<open>
  C6, amended. For every sparse set that satisfies the invariant, every entity handle
  below \<open>2^45\<close> and every component value, \<open>Emplace\<close> returns without a panic, a
  subsequent \<open>Get\<close> finds a slot that holds the value, and the invariant holds with the
  entity owning that slot. When the handle is at or beyond the capacity of \<open>sparse\<close>, the
  new capacity is \<open>nextAlignedCapacity (entity + 1)\<close>: a multiple of the alignment, above
  the handle by at most 256; otherwise the capacity is unchanged. The bound is the one of
  \<^verbatim>\<open>make\<close>: a sparse index of more than \<open>2^45\<close> slots of 8 bytes exceeds \<open>maxAlloc\<close>,
  and for every handle from \<open>2^45\<close> on that is at or beyond the capacity \<open>Emplace\<close>
  panics.
\<close>

theorem Emplace_succeeds_below_limit:
  assumes "SparseSet_inv ss owner" and "cells_inv ss h"
  shows "(unat entity < 2 ^ 45 \<longrightarrow>
       (\<exists>ss' h' a. Emplace ss entity v h = Inr (ss', h') \<and>
          Get ss' entity = Inr (Some a) \<and> load h' a = v \<and>
          GetValue ss' h' entity = Inr (Some v) \<and>
          SparseSet_inv ss' (owner(entity \<mapsto> a)) \<and>
          (len (sparse ss) \<le> int_of_Goent entity \<longrightarrow>
             len (sparse ss') = nextAlignedCapacity (int_of_Goent entity + 1) \<and>
             int_of_Goent entity < len (sparse ss') \<and>
             len (sparse ss') \<le> int_of_Goent entity + 256 \<and>
             len (sparse ss') mod alignment = 0) \<and>
          (int_of_Goent entity < len (sparse ss) \<longrightarrow> len (sparse ss') = len (sparse ss)))) \<and>
     (2 ^ 45 \<le> unat entity \<and> len (sparse ss) \<le> int (unat entity) \<longrightarrow>
       (\<exists>p. Emplace ss entity v h = Inl p))"
proof (intro conjI impI)
  assume lim: "unat entity < 2 ^ 45"
  have l: "linked ss" using assms(1) by (simp add: SparseSet_inv_iff)
  have "(2::nat) ^ 45 \<le> 2 ^ 63" by simp
  with lim have "unat entity < 2 ^ 63" by (rule less_le_trans)
  then have u: "int_of_Goent entity = int (unat entity)" by (rule int_of_Goent_unat)
  have e: "0 \<le> int_of_Goent entity" "int_of_Goent entity < 2 ^ 45"
    unfolding u using int_less_limit [OF lim] by (simp, linarith)
  then have e': "int_of_Goent entity < len (sparse ss) \<or> int_of_Goent entity < 2 ^ 45"
    by simp
  from GetValue_Emplace_same [OF l e(1) e', of v h]
  obtain ss' h' a where r: "Emplace ss entity v h = Inr (ss', h')"
    and g: "Get ss' entity = Inr (Some a)" and ld: "load h' a = v" by blast
  have gv: "GetValue ss' h' entity = Inr (Some v)" using g ld by (simp add: GetValue_def)
  from Emplace_inv [OF assms r] obtain a' where i': "SparseSet_inv ss' (owner(entity \<mapsto> a'))"
    by blast
  from Get_inv [OF i' g] have "a' = a" by simp
  with i' have i: "SparseSet_inv ss' (owner(entity \<mapsto> a))" by simp
  have sp: "sparse ss' = (if entity \<in> set (dense ss) then sparse ss
      else (grown (sparse ss) entity)[nat (int_of_Goent entity) := len (dense ss)])"
    by (rule Emplace_sparse_length [OF l e(1) e' r])
  have small: "int_of_Goent entity < len (sparse ss) \<longrightarrow> len (sparse ss') = len (sparse ss)"
    unfolding sp by (simp add: len_def grown_def)
  have big: "len (sparse ss) \<le> int_of_Goent entity \<longrightarrow>
        len (sparse ss') = nextAlignedCapacity (int_of_Goent entity + 1) \<and>
        int_of_Goent entity < len (sparse ss') \<and>
        len (sparse ss') \<le> int_of_Goent entity + 256 \<and>
        len (sparse ss') mod alignment = 0"
  proof
    assume c: "len (sparse ss) \<le> int_of_Goent entity"
    have nd: "entity \<notin> set (dense ss)" using c linked_mem_dense [OF l, of entity] by simp
    let ?n = "int_of_Goent entity + 1"
    have n: "0 \<le> ?n" "?n \<le> 2 ^ 63 - 256" using e by simp_all
    from nextAlignedCapacity_bounds [OF n]
    have b: "?n \<le> nextAlignedCapacity ?n" "nextAlignedCapacity ?n < ?n + 256" by simp_all
    have "len (sparse ss') = len (grown (sparse ss) entity)"
      unfolding sp using nd by (simp add: len_def)
    also have "\<dots> = nextAlignedCapacity ?n"
      using c b by (simp add: grown_len)
    finally have eq: "len (sparse ss') = nextAlignedCapacity ?n" .
    have "nextAlignedCapacity ?n mod 256 = 0"
      unfolding nextAlignedCapacity_nonneg [OF n] by simp
    with eq b show "len (sparse ss') = nextAlignedCapacity ?n \<and>
        int_of_Goent entity < len (sparse ss') \<and>
        len (sparse ss') \<le> int_of_Goent entity + 256 \<and>
        len (sparse ss') mod alignment = 0" by (simp add: alignment_def)
  qed
  show "\<exists>ss' h' a. Emplace ss entity v h = Inr (ss', h') \<and>
          Get ss' entity = Inr (Some a) \<and> load h' a = v \<and>
          GetValue ss' h' entity = Inr (Some v) \<and>
          SparseSet_inv ss' (owner(entity \<mapsto> a)) \<and>
          (len (sparse ss) \<le> int_of_Goent entity \<longrightarrow>
             len (sparse ss') = nextAlignedCapacity (int_of_Goent entity + 1) \<and>
             int_of_Goent entity < len (sparse ss') \<and>
             len (sparse ss') \<le> int_of_Goent entity + 256 \<and>
             len (sparse ss') mod alignment = 0) \<and>
          (int_of_Goent entity < len (sparse ss) \<longrightarrow> len (sparse ss') = len (sparse ss))"
    by (intro exI [of _ ss'] exI [of _ h'] exI [of _ a] conjI r g ld gv i small big)
next
  assume a: "2 ^ 45 \<le> unat entity \<and> len (sparse ss) \<le> int (unat entity)"
  show "\<exists>p. Emplace ss entity v h = Inl p"
  proof (cases "unat entity < 2 ^ 63")
    case True
    then have u: "int_of_Goent entity = int (unat entity)" by (rule int_of_Goent_unat)
    have "2 ^ 45 \<le> int_of_Goent entity" unfolding u using a int_ge_2p45 by blast
    moreover have "len (sparse ss) \<le> int_of_Goent entity" unfolding u using a by simp
    ultimately have "Emplace ss entity v h = Inl MakeSliceLenOutOfRange"
      by (rule Emplace_overflow)
    then show ?thesis by blast
  next
    case False
    then have "2 ^ 63 \<le> unat entity" by simp
    then have "int_of_Goent entity < 0" by (rule int_of_Goent_negative)
    then have "Emplace ss entity v h = Inl IndexOutOfRange" by (rule Emplace_negative)
    then show ?thesis by blast
  qed
qed

theorem Emplace_succeeds_below_limit_witness:
  "(\<exists>ss' h' a. Emplace NewSparseSet 300 (7::nat) (heap0 0) = Inr (ss', h') \<and>
      Get ss' 300 = Inr (Some a) \<and> load h' a = 7 \<and> len (sparse ss') = 512 \<and>
      SparseSet_inv ss' [300 \<mapsto> a]) \<and>
   (\<exists>p. Emplace NewSparseSet (2 ^ 45) (7::nat) (heap0 0) = Inl p)"
proof -
  note t = Emplace_succeeds_below_limit
    [OF SparseSet_inv_NewSparseSet cells_inv_NewSparseSet, where v = "7::nat" and h = "heap0 0"]
  have u: "unat (300 :: Goent) < 2 ^ 45" by simp
  have c: "len (sparse NewSparseSet) \<le> int_of_Goent 300"
    by (simp add: NewSparseSet_def len_def alignment_def int_of_Goent_def)
  have v: "nextAlignedCapacity (int_of_Goent 300 + 1) = 512"
    by (simp add: nextAlignedCapacity_def alignment_def int_of_Goent_def int64_def
        signed_modulo_int_def signed_divide_int_def)
  have 1: "\<exists>ss' h' a. Emplace NewSparseSet 300 (7::nat) (heap0 0) = Inr (ss', h') \<and>
      Get ss' 300 = Inr (Some a) \<and> load h' a = 7 \<and> len (sparse ss') = 512 \<and>
      SparseSet_inv ss' [300 \<mapsto> a]"
    using t [of 300] u c v by auto
  have w: "(2::nat) ^ 45 \<le> unat (2 ^ 45 :: Goent)" by simp
  have d: "len (sparse NewSparseSet) \<le> int (unat (2 ^ 45 :: Goent))"
    by (simp add: NewSparseSet_def len_def alignment_def)
  have 2: "\<exists>p. Emplace NewSparseSet (2 ^ 45) (7::nat) (heap0 0) = Inl p"
    using t [of "2 ^ 45"] w d by blast
  from 1 2 show ?thesis ..
qed



text \<open>
  C7. An \<open>Emplace\<close> on a handle at or beyond the capacity of \<open>sparse\<close> (and below
  \<open>2^45\<close>, so that it returns) grows \<open>sparse\<close>; afterwards every entry of \<open>sparse\<close>
  below the old capacity, every earlier position of \<open>dense\<close> and \<open>components\<close> and the
  value in every earlier cell are what they were, and every other entity answers \<open>Get\<close>
  with the same slot and the same value. In particular, emplacing on the entities
  \<open>0, ..., 299\<close> of a new sparse set, entity \<open>i\<close> with the value \<open>val i\<close>, returns, takes
  the capacity from 256 to 512, and \<open>Get\<close> then finds every one of the 300 entities with
  the value emplaced for it.
\<close>

theorem sparse_growth_preserves_entries:
  "(SparseSet_inv ss owner \<and> cells_inv ss h \<and> unat entity < 2 ^ 45 \<and>
      len (sparse ss) \<le> int (unat entity) \<longrightarrow>
      (\<exists>ss' h'. Emplace ss entity v h = Inr (ss', h') \<and>
         length (sparse ss) < length (sparse ss') \<and>
         (\<forall>j<length (sparse ss). sparse ss' ! j = sparse ss ! j) \<and>
         dense ss' = dense ss @ [entity] \<and>
         (\<forall>i<length (components ss).
            components ss' ! i = components ss ! i \<and>
            load h' (components ss' ! i) = load h (components ss ! i)) \<and>
         (\<forall>e'. e' \<noteq> entity \<longrightarrow>
            Get ss' e' = Get ss e' \<and> GetValue ss' h' e' = GetValue ss h e') \<and>
         GetValue ss' h' entity = Inr (Some v))) \<and>
   (\<exists>ss' h'. emplace_all (map (\<lambda>i. (word_of_nat i, val i)) [0..<300]) NewSparseSet h0 =
        Inr (ss', h') \<and>
      len (sparse ss') = 512 \<and>
      (\<forall>i<300. GetValue ss' h' (word_of_nat i) = Inr (Some (val i))))"
proof (intro conjI impI)
  assume a: "SparseSet_inv ss owner \<and> cells_inv ss h \<and> unat entity < 2 ^ 45 \<and>
      len (sparse ss) \<le> int (unat entity)"
  then have l: "linked ss" and c: "cells_inv ss h" and lim: "unat entity < 2 ^ 45"
    by (simp_all add: SparseSet_inv_iff)
  have "(2::nat) ^ 45 \<le> 2 ^ 63" by simp
  with lim have "unat entity < 2 ^ 63" by (rule less_le_trans)
  then have u: "int_of_Goent entity = int (unat entity)" by (rule int_of_Goent_unat)
  have e: "0 \<le> int_of_Goent entity" "int_of_Goent entity < 2 ^ 45"
    unfolding u using int_less_limit [OF lim] by (simp, linarith)
  then have e': "int_of_Goent entity < len (sparse ss) \<or> int_of_Goent entity < 2 ^ 45" by simp
  have cap: "len (sparse ss) \<le> int_of_Goent entity" unfolding u using a by simp
  have nd: "entity \<notin> set (dense ss)" using cap linked_mem_dense [OF l, of entity] by simp
  from Emplace_grow_frame [OF l c cap e(2), of v]
  obtain ss' h' where r: "Emplace ss entity v h = Inr (ss', h')"
    and 1: "length (sparse ss) < length (sparse ss')"
    and 2: "take (length (sparse ss)) (sparse ss') = sparse ss"
    and 3: "dense ss' = dense ss @ [entity]"
    and 4: "components ss' = components ss @ [fresh h]"
    and 5: "\<forall>a\<in>set (components ss). load h' a = load h a"
    and 6: "load h' (fresh h) = v"
    by blast
  have sp: "\<forall>j<length (sparse ss). sparse ss' ! j = sparse ss ! j"
  proof (intro allI impI)
    fix j assume "j < length (sparse ss)"
    then have "take (length (sparse ss)) (sparse ss') ! j = sparse ss' ! j" by simp
    then show "sparse ss' ! j = sparse ss ! j" unfolding 2 by simp
  qed
  have cp: "\<forall>i<length (components ss).
            components ss' ! i = components ss ! i \<and>
            load h' (components ss' ! i) = load h (components ss ! i)"
    using 5 by (simp add: 4 nth_append)
  have "Emplace ss entity v h = Inr (appended ss entity (fresh h), snd (new_cell v h))"
    using nd by (simp add: Emplace_result [OF l e(1) e'])
  with r have s: "ss' = appended ss entity (fresh h)" by simp
  from Emplace_spec [OF l c e(1) e', of v] r
  have gv: "GetValue ss' h' entity = Inr (Some v)"
    and go: "\<forall>e'. e' \<noteq> entity \<longrightarrow> GetValue ss' h' e' = GetValue ss h e'"
    by auto
  have 7: "\<forall>e'. e' \<noteq> entity \<longrightarrow>
            Get ss' e' = Get ss e' \<and> GetValue ss' h' e' = GetValue ss h e'"
    using go Get_appended_other [OF l e(1) e' nd] unfolding s by blast
  show "\<exists>ss' h'. Emplace ss entity v h = Inr (ss', h') \<and>
         length (sparse ss) < length (sparse ss') \<and>
         (\<forall>j<length (sparse ss). sparse ss' ! j = sparse ss ! j) \<and>
         dense ss' = dense ss @ [entity] \<and>
         (\<forall>i<length (components ss).
            components ss' ! i = components ss ! i \<and>
            load h' (components ss' ! i) = load h (components ss ! i)) \<and>
         (\<forall>e'. e' \<noteq> entity \<longrightarrow>
            Get ss' e' = Get ss e' \<and> GetValue ss' h' e' = GetValue ss h e') \<and>
         GetValue ss' h' entity = Inr (Some v)"
    by (intro exI [of _ ss'] exI [of _ h'] conjI r 1 sp 3 cp 7 gv)
next
  from emplace_range [of 300 val h0]
  show "\<exists>ss' h'. emplace_all (map (\<lambda>i. (word_of_nat i, val i)) [0..<300]) NewSparseSet h0 =
        Inr (ss', h') \<and>
      len (sparse ss') = 512 \<and>
      (\<forall>i<300. GetValue ss' h' (word_of_nat i) = Inr (Some (val i)))"
    by auto
qed

theorem sparse_growth_preserves_entries_witness:
  "\<exists>s1 h1 s2 h2.
     Emplace NewSparseSet 3 (30::nat) (heap0 0) = Inr (s1, h1) \<and>
     Get s1 3 = Inr (Some 0) \<and> length (sparse s1) = 256 \<and>
     Emplace s1 300 7 h1 = Inr (s2, h2) \<and>
     256 < length (sparse s2) \<and> sparse s2 ! 3 = sparse s1 ! 3 \<and>
     dense s2 = [3, 300] \<and>
     Get s2 3 = Inr (Some 0) \<and> GetValue s2 h2 3 = Inr (Some 30) \<and>
     GetValue s2 h2 300 = Inr (Some 7)"
proof -
  let ?h0 = "heap0 (0::nat)"
  let ?s1 = "appended NewSparseSet 3 0"
  let ?h1 = "snd (new_cell 30 ?h0)"
  have f: "fresh ?h0 = 0" by (simp add: heap0_def)
  have l0: "linked NewSparseSet" by (rule linked_NewSparseSet)
  have e1: "Emplace NewSparseSet 3 30 ?h0 = Inr (?s1, ?h1)"
    using Emplace_result [OF l0, of 3 30 ?h0]
    by (simp add: int_of_Goent_def NewSparseSet_def f)
  from Emplace_inv [OF SparseSet_inv_NewSparseSet cells_inv_NewSparseSet e1] f
  have i1: "SparseSet_inv ?s1 [3 \<mapsto> 0]" and c1: "cells_inv ?s1 ?h1" by auto
  have g1: "Get ?s1 3 = Inr (Some 0)"
    using Get_inv [OF i1, of 3] by (simp add: Get_def Let_def appended_def NewSparseSet_def
        grown_def len_def int_of_Goent_def alignment_def slice_get_def invalidIndex_def)
  have v1: "GetValue ?s1 ?h1 3 = Inr (Some 30)"
    by (simp add: GetValue_def g1 load_def new_cell_def heap0_def)
  have n1: "length (sparse ?s1) = 256" "dense ?s1 = [3]"
    by (simp_all add: appended_def NewSparseSet_def grown_def len_def int_of_Goent_def alignment_def)
  have u: "unat (300 :: Goent) < 2 ^ 45" by simp
  have c: "len (sparse ?s1) \<le> int (unat (300 :: Goent))"
    by (simp add: len_def n1)
  from sparse_growth_preserves_entries [of ?s1 "[3 \<mapsto> 0]" ?h1 300 7 id ?h0] i1 c1 u c
  obtain s2 h2 where r: "Emplace ?s1 300 7 ?h1 = Inr (s2, h2)"
    and 1: "length (sparse ?s1) < length (sparse s2)"
    and 2: "\<forall>j<length (sparse ?s1). sparse s2 ! j = sparse ?s1 ! j"
    and 3: "dense s2 = dense ?s1 @ [300]"
    and 4: "\<forall>e'. e' \<noteq> 300 \<longrightarrow> Get s2 e' = Get ?s1 e' \<and> GetValue s2 h2 e' = GetValue ?s1 ?h1 e'"
    and 5: "GetValue s2 h2 300 = Inr (Some 7)"
    by blast
  have "256 < length (sparse s2)" using 1 n1 by simp
  moreover have "sparse s2 ! 3 = sparse ?s1 ! 3" using 2 n1 by simp
  moreover have "dense s2 = [3, 300]" using 3 n1 by simp
  moreover have "Get s2 3 = Inr (Some 0)" "GetValue s2 h2 3 = Inr (Some 30)"
    using 4 g1 v1 by simp_all
  ultimately show ?thesis using e1 g1 n1 r 5 by blast
qed

end
